theory Spec2Isabelle
  imports Main "HOL-Library.Word" "HOL-Library.Multiset" "HOL-Library.Sublist"
    "HOL-Library.Signed_Division"
begin

section \<open>Integers of the program\<close>

text \<open>
  Both pools keep their sizes and counters in C++ \<open>int\<close> (plain or \<open>std::atomic_int\<close>):
  32-bit two's complement, compared as signed values (\<open><s\<close>, \<open>\<le>s\<close>), \<open>++\<close> and \<open>--\<close>
  wrapping as the atomic operations do. On the plain \<open>int\<close>s that are counted
  (\<open>generateId_\<close>, \<open>resLimit_\<close>, the loop index of \<open>start()\<close>) an overflow is undefined in
  C++; they wrap here as well, and the statements below that depend on a count say
  that it has not wrapped. A container's \<open>size()\<close> is a \<open>size_t\<close>; where the
  source compares it with an \<open>int\<close> the \<open>int\<close> is converted to \<open>size_t\<close> first, that is
  taken modulo \<open>2 ^ 64\<close>, so a negative \<open>int\<close> becomes a huge bound.
\<close>

type_synonym cint = "32 word"

definition size_t_of_int :: "cint \<Rightarrow> nat" where
  "size_t_of_int x = nat (sint x mod 2 ^ 64)"

definition THREAD_MAX_IDLE_TIME :: int where
  "THREAD_MAX_IDLE_TIME = 60"

text \<open>
  Time points of \<open>high_resolution_clock\<close> are counts of nanoseconds;
  \<open>duration_cast<seconds>\<close> truncates towards zero.
\<close>

definition duration_cast_seconds :: "int \<Rightarrow> int" where
  "duration_cast_seconds d = d sdiv 1000000000"

section \<open>What leaves a call other than its result\<close>

text \<open>
  A call either returns, or an exception leaves it (\<open>Thrown\<close>), or it dereferences a
  pointer that points to no object (\<open>Bad_pointer\<close>, undefined behaviour in C++), or it
  invokes a \<open>std::packaged_task\<close> a second time (\<open>Already_satisfied\<close>, the
  \<open>std::future_error\<close> the library throws), or it calls a member through the null
  \<open>unique_ptr<Thread>\<close> that \<open>threadMap_[k]\<close> inserts under a key the map does not hold
  (\<open>Null_thread k\<close>, undefined behaviour as well). A call that can block either returns
  or blocks in the state it is called in.
\<close>

datatype 'x fault = Thrown 'x | Bad_pointer nat | Already_satisfied nat | Null_thread cint

datatype 'a blocking = Blocks | Returns 'a

section \<open>ThreadPool1.0: Any, Semaphore, Result, Task\<close>

text \<open>
  \<open>Any\<close> holds a value of any type behind a base pointer: the pointer is null
  (\<open>Any_empty\<close>, what \<open>Any()\<close> and a moved-from \<open>Any\<close> hold), or it points to a C string
  (\<open>Any_cstr\<close>, what \<open>return ""\<close> in \<open>Result::get\<close> builds), or to a value of the task's
  result type.
\<close>

datatype 'v Any = Any_empty | Any_cstr string | Any_of 'v

record Semaphore =
  resLimit_' :: cint

definition Semaphore_wait :: "Semaphore \<Rightarrow> Semaphore blocking" where
  "Semaphore_wait s =
     (if 0 <s resLimit_' s then Returns (s\<lparr>resLimit_' := resLimit_' s - 1\<rparr>) else Blocks)"

definition Semaphore_post :: "Semaphore \<Rightarrow> Semaphore" where
  "Semaphore_post s = s\<lparr>resLimit_' := resLimit_' s + 1\<rparr>"

text \<open>
  Isabelle names cannot end in an underscore: every member of the source is written
  with \<open>_'\<close> where the source has \<open>_\<close> (\<open>result_'\<close> is \<open>result_\<close>, and so on).

  Objects live in a store. A \<open>Task\<close> is reached through \<open>shared_ptr<Task>\<close> (its address);
  \<open>run\<close> is what the task's own \<open>run()\<close> does when it is called: it throws or returns an
  \<open>Any\<close>. \<open>result_\<close> is the raw \<open>Result *\<close>, \<open>None\<close> for \<open>nullptr\<close>. A \<open>Result\<close> lives
  where the caller of \<open>submitTask\<close> receives it.
\<close>

record ('x, 'v) Task =
  run :: "'x + 'v Any"
  result_' :: "nat option"

record 'v Result =
  any_' :: "'v Any"
  sem_' :: Semaphore
  task_' :: nat
  isValid_' :: bool

record ('x, 'v) store =
  tasks :: "nat \<rightharpoonup> ('x, 'v) Task"
  results :: "nat \<rightharpoonup> 'v Result"

definition Task_setResult :: "nat option \<Rightarrow> ('x, 'v) Task \<Rightarrow> ('x, 'v) Task" where
  "Task_setResult res t = t\<lparr>result_' := res\<rparr>"

text \<open>\<open>Result::Result(task, isValid)\<close>, constructed at address \<open>this\<close>.\<close>

definition Result_ctor ::
  "nat \<Rightarrow> nat \<Rightarrow> bool \<Rightarrow> ('x, 'v) store \<Rightarrow> 'x fault + ('x, 'v) store" where
  "Result_ctor this task isValid h =
     (let h1 = h\<lparr>results := (results h)(this \<mapsto>
                 \<lparr>any_' = Any_empty, sem_' = \<lparr>resLimit_' = 0\<rparr>, task_' = task,
                  isValid_' = isValid\<rparr>)\<rparr>
      in case tasks h1 task of
           None \<Rightarrow> Inl (Bad_pointer task)
         | Some t \<Rightarrow> Inr (h1\<lparr>tasks := (tasks h1)(task \<mapsto> Task_setResult (Some this) t)\<rparr>))"

definition Result_setVal :: "'v Any \<Rightarrow> 'v Result \<Rightarrow> 'v Result" where
  "Result_setVal any r = r\<lparr>any_' := any, sem_' := Semaphore_post (sem_' r)\<rparr>"

text \<open>
  \<open>Result::get\<close>: the value returned, or that the call blocks, and the \<open>Result\<close> after
  the call (\<open>std::move(any_)\<close> leaves \<open>any_\<close> empty).
\<close>

definition Result_get :: "'v Result \<Rightarrow> 'v Any blocking \<times> 'v Result" where
  "Result_get r =
     (if isValid_' r then (Returns (Any_cstr ''''), r)
      else case Semaphore_wait (sem_' r) of
             Blocks \<Rightarrow> (Blocks, r)
           | Returns s \<Rightarrow> (Returns (any_' r), r\<lparr>sem_' := s, any_' := Any_empty\<rparr>))"

text \<open>
  \<open>Task::exec\<close> on the task at address \<open>task\<close>: \<open>run()\<close> is evaluated first, then
  \<open>setVal\<close> is called through \<open>result_\<close>. Nothing in \<open>exec\<close> catches what \<open>run\<close> throws.
\<close>

definition Task_exec :: "nat \<Rightarrow> ('x, 'v) store \<Rightarrow> 'x fault + ('x, 'v) store" where
  "Task_exec task h =
     (case tasks h task of
        None \<Rightarrow> Inl (Bad_pointer task)
      | Some t \<Rightarrow>
          (case result_' t of
             None \<Rightarrow> Inr h
           | Some res \<Rightarrow>
               (case run t of
                  Inl e \<Rightarrow> Inl (Thrown e)
                | Inr any \<Rightarrow>
                    (case results h res of
                       None \<Rightarrow> Inl (Bad_pointer res)
                     | Some r \<Rightarrow> Inr (h\<lparr>results := (results h)(res \<mapsto> Result_setVal any r)\<rparr>)))))"

section \<open>ThreadPool2.0: packaged tasks and futures\<close>

text \<open>
  A \<open>std::packaged_task<RType()>\<close> and the \<open>std::future<RType>\<close> taken from it share one
  state: not ready, or ready with a value, or ready with the exception the stored
  callable threw. \<open>stored\<close> is what the bound call \<open>func(args...)\<close> does when invoked.
  The queue holds the closure \<open>[task]() { (*task)(); }\<close>, that is the address of the
  packaged task.
\<close>

datatype ('x, 'v) shared_state = Not_ready | Ready_value 'v | Ready_exception 'x

record ('x, 'v) packaged_task =
  stored :: "'x + 'v"
  state :: "('x, 'v) shared_state"

type_synonym ('x, 'v) store2 = "nat \<rightharpoonup> ('x, 'v) packaged_task"

definition std_bind :: "('a \<Rightarrow> 'x + 'v) \<Rightarrow> 'a \<Rightarrow> 'x + 'v" where
  "std_bind func args = func args"

definition make_packaged_task :: "nat \<Rightarrow> 'x + 'v \<Rightarrow> ('x, 'v) store2 \<Rightarrow> ('x, 'v) store2" where
  "make_packaged_task a f h = h(a \<mapsto> \<lparr>stored = f, state = Not_ready\<rparr>)"

text \<open>
  \<open>(*task)()\<close>: the library runs the stored callable and makes the shared state ready
  with its value or with the exception it threw; the exception does not leave the call.
\<close>

definition packaged_task_invoke :: "nat \<Rightarrow> ('x, 'v) store2 \<Rightarrow> 'x fault + ('x, 'v) store2" where
  "packaged_task_invoke a h =
     (case h a of
        None \<Rightarrow> Inl (Bad_pointer a)
      | Some pt \<Rightarrow>
          (case state pt of
             Not_ready \<Rightarrow>
               Inr (h(a \<mapsto> pt\<lparr>state := (case stored pt of
                                            Inl e \<Rightarrow> Ready_exception e
                                          | Inr v \<Rightarrow> Ready_value v)\<rparr>))
           | Ready_value v \<Rightarrow> Inl (Already_satisfied a)
           | Ready_exception e \<Rightarrow> Inl (Already_satisfied a)))"

text \<open>
  \<open>std::future::get\<close> on the future of the packaged task at \<open>a\<close>: it blocks until the
  state is ready, then returns the value or rethrows the stored exception.
\<close>

definition future_get :: "nat \<Rightarrow> ('x, 'v) store2 \<Rightarrow> ('x fault + 'v) blocking" where
  "future_get a h =
     (case h a of
        None \<Rightarrow> Returns (Inl (Bad_pointer a))
      | Some pt \<Rightarrow>
          (case state pt of
             Not_ready \<Rightarrow> Blocks
           | Ready_value v \<Rightarrow> Returns (Inr v)
           | Ready_exception e \<Rightarrow> Returns (Inl (Thrown e))))"

text \<open>
  The rejected branch of the 2.0 \<open>submitTask\<close>: a second packaged task returning
  \<open>RType()\<close> is built at \<open>a\<close> and run at once; its future is what the caller gets.
\<close>

definition rejected_future :: "nat \<Rightarrow> 'v \<Rightarrow> ('x, 'v) store2 \<Rightarrow> 'x fault + ('x, 'v) store2" where
  "rejected_future a rtype0 h = packaged_task_invoke a (make_packaged_task a (Inr rtype0) h)"

section \<open>Thread and the pool's fields\<close>

datatype PoolMode = MODE_FIXED | MODE_CACHED

record Thread =
  threadId_' :: cint

text \<open>
  \<open>Thread::Thread\<close> reads and increments the static \<open>generateId_\<close>, which every pool of
  the process shares: the counter is passed in and returned.
\<close>

definition Thread_ctor :: "cint \<Rightarrow> Thread \<times> cint" where
  "Thread_ctor generateId = (\<lparr>threadId_' = generateId\<rparr>, generateId + 1)"

definition Thread_getId :: "Thread \<Rightarrow> cint" where
  "Thread_getId t = threadId_' t"

text \<open>
  \<open>Thread::start\<close> creates a detached \<open>std::thread\<close> that runs \<open>func_(threadId_)\<close>, which
  is the pool's \<open>threadFunc\<close>: the result is the argument the new thread runs it with.
\<close>

definition Thread_start :: "Thread \<Rightarrow> cint" where
  "Thread_start t = threadId_' t"

text \<open>
  The pool. Field names are those of ThreadPool1.0; 2.0 calls them \<open>maxThreadSize_\<close>
  (\<open>threadSizeThreshHold_'\<close>), \<open>currentThreadNum_\<close> (\<open>curThreadNum_'\<close>), \<open>taskSize_\<close>
  (\<open>taskNum_'\<close>), \<open>taskMaxSize_\<close> (\<open>taskQueMaxThreshHold_'\<close>), \<open>poolmode_\<close>
  (\<open>poolMode_'\<close>), \<open>isRunning_\<close> (\<open>isPoolRunning_'\<close>) and \<open>taskMtx_\<close> (\<open>taskQueMtx_\<close>).
  \<open>threadMap_'\<close> is the \<open>unordered_map\<close> from thread id to \<open>unique_ptr<Thread>\<close>, kept as
  an association list with one entry per key.
  \<open>notEmpty_'\<close> is the condition variable workers wait on, kept as the ids of the threads
  blocked in it. The mutex is not a field: every step below that the source runs with
  the mutex held is one atomic step. \<open>notFull_\<close> and \<open>exitCond_\<close> have no field either:
  their waiters are a submitter inside \<open>wait_for\<close> and the destructor inside \<open>wait\<close>,
  both modelled by the step at which the wait returns.
\<close>

record 't ThreadPool =
  threadMap_' :: "(cint \<times> Thread) list"
  initThreadSize_' :: cint
  threadSizeThreshHold_' :: cint
  curThreadNum_' :: cint
  idleThreadNum_' :: cint
  taskQue_' :: "'t list"
  taskNum_' :: cint
  taskQueMaxThreshHold_' :: cint
  notEmpty_' :: "cint list"
  poolMode_' :: PoolMode
  isPoolRunning_' :: bool

definition threadMap_emplace :: "cint \<Rightarrow> Thread \<Rightarrow> (cint \<times> Thread) list \<Rightarrow> (cint \<times> Thread) list" where
  "threadMap_emplace k v m = (case map_of m k of None \<Rightarrow> m @ [(k, v)] | Some u \<Rightarrow> m)"

definition threadMap_erase :: "cint \<Rightarrow> (cint \<times> Thread) list \<Rightarrow> (cint \<times> Thread) list" where
  "threadMap_erase k m = filter (\<lambda>e. fst e \<noteq> k) m"

definition threadMap_size :: "(cint \<times> Thread) list \<Rightarrow> nat" where
  "threadMap_size m = length m"

text \<open>
  \<open>threadMap_[k]\<close>: the \<open>Thread\<close> stored under \<open>k\<close>. Under a key that is not in the map
  \<open>operator[]\<close> inserts a null \<open>unique_ptr\<close>, which both callers dereference at once:
  that is \<open>None\<close> here.
\<close>

definition threadMap_at :: "cint \<Rightarrow> (cint \<times> Thread) list \<Rightarrow> Thread option" where
  "threadMap_at k m = map_of m k"

section \<open>Construction\<close>

text \<open>
  A constructor refuses its arguments by throwing. Neither constructor has a statement
  that throws: the body is empty and the initialiser list copies the arguments.
  1.0 does not initialise \<open>isPoolRunning_\<close>; the value it happens to hold is \<open>r0\<close>.
\<close>

datatype ctor_error = Invalid_argument

definition ThreadPool_v1 :: "cint \<Rightarrow> cint \<Rightarrow> cint \<Rightarrow> PoolMode \<Rightarrow> bool \<Rightarrow> 't ThreadPool" where
  "ThreadPool_v1 initThreadSize threadthreshhold taskthreshhold mode r0 =
     \<lparr>threadMap_' = [], initThreadSize_' = initThreadSize,
      threadSizeThreshHold_' = threadthreshhold, curThreadNum_' = 0, idleThreadNum_' = 0,
      taskQue_' = [], taskNum_' = 0, taskQueMaxThreshHold_' = taskthreshhold,
      notEmpty_' = [], poolMode_' = mode, isPoolRunning_' = r0\<rparr>"

definition ThreadPool_v2 :: "PoolMode \<Rightarrow> cint \<Rightarrow> cint \<Rightarrow> cint \<Rightarrow> 't ThreadPool" where
  "ThreadPool_v2 poolmode initthreadsize maxthreadsize taskmaxsize =
     \<lparr>threadMap_' = [], initThreadSize_' = initthreadsize,
      threadSizeThreshHold_' = maxthreadsize, curThreadNum_' = 0, idleThreadNum_' = 0,
      taskQue_' = [], taskNum_' = 0, taskQueMaxThreshHold_' = taskmaxsize,
      notEmpty_' = [], poolMode_' = poolmode, isPoolRunning_' = False\<rparr>"

definition construct_v1 ::
  "cint \<Rightarrow> cint \<Rightarrow> cint \<Rightarrow> PoolMode \<Rightarrow> bool \<Rightarrow> ctor_error + 't ThreadPool" where
  "construct_v1 initThreadSize threadthreshhold taskthreshhold mode r0 =
     Inr (ThreadPool_v1 initThreadSize threadthreshhold taskthreshhold mode r0)"

definition construct_v2 :: "PoolMode \<Rightarrow> cint \<Rightarrow> cint \<Rightarrow> cint \<Rightarrow> ctor_error + 't ThreadPool" where
  "construct_v2 poolmode initthreadsize maxthreadsize taskmaxsize =
     Inr (ThreadPool_v2 poolmode initthreadsize maxthreadsize taskmaxsize)"

section \<open>submitTask\<close>

text \<open>
  The block both versions run when they grow the pool: a new \<open>Thread\<close> takes the next
  id, \<open>threadMap_.emplace(threadId, std::move(ptr))\<close> stores it unless the key is taken,
  \<open>threadMap_[threadId]->start()\<close> starts the \<open>Thread\<close> found under the key, and both
  counters go up. The result carries the argument the new thread runs \<open>threadFunc\<close> with.
\<close>

definition threadMap_emplace_at ::
  "cint \<Rightarrow> Thread \<Rightarrow> (cint \<times> Thread) list \<Rightarrow> (cint \<times> Thread) list \<times> Thread" where
  "threadMap_emplace_at k v m =
     (case threadMap_at k m of None \<Rightarrow> (threadMap_emplace k v m, v)
                             | Some u \<Rightarrow> (threadMap_emplace k v m, u))"

definition spawn_thread :: "cint \<times> 't ThreadPool \<Rightarrow> cint \<times> 't ThreadPool \<times> cint" where
  "spawn_thread gp =
     (case gp of (g, p) \<Rightarrow>
        (case Thread_ctor g of (ptr, g') \<Rightarrow>
           (case threadMap_emplace_at (Thread_getId ptr) ptr (threadMap_' p) of (tm, th) \<Rightarrow>
              (g',
               p\<lparr>threadMap_' := tm,
                 curThreadNum_' := curThreadNum_' p + 1,
                 idleThreadNum_' := idleThreadNum_' p + 1\<rparr>,
               Thread_start th))))"

text \<open>
  \<open>submitTask\<close> takes the mutex and waits up to a second for room in the queue. The
  function is the step at which that \<open>wait_for\<close> returns, run on the pool as it is
  then: without room the call is rejected and the pool is left as it was; with room
  the task is queued, the waiters of \<open>notEmpty_\<close> are notified and, in cached mode, the
  pool may grow. The result is: whether the task was accepted (1.0 returns
  \<open>Result(sp)\<close> or \<open>Result(sp, false)\<close>, 2.0 the task's future or the future of
  \<open>rejected_future\<close>), the static id counter, the pool, and the thread started if any.
\<close>

definition submitTask_v1 ::
  "'t \<Rightarrow> cint \<times> 't ThreadPool \<Rightarrow> bool \<times> cint \<times> 't ThreadPool \<times> cint option" where
  "submitTask_v1 sp gp =
     (case gp of (g, p) \<Rightarrow>
        if \<not> length (taskQue_' p) < size_t_of_int (taskQueMaxThreshHold_' p)
        then (False, g, p, None)
        else
          let p1 = p\<lparr>taskQue_' := taskQue_' p @ [sp]\<rparr>;
              p2 = p1\<lparr>taskNum_' := taskNum_' p1 + 1\<rparr>;
              p3 = p2\<lparr>notEmpty_' := []\<rparr>
          in if poolMode_' p3 = MODE_CACHED
                \<and> curThreadNum_' p3 <s threadSizeThreshHold_' p3
                \<and> idleThreadNum_' p3 <s taskNum_' p3
             then (case spawn_thread (g, p3) of (g', p4, l) \<Rightarrow> (True, g', p4, Some l))
             else (True, g, p3, None))"

definition submitTask_v2 ::
  "'t \<Rightarrow> cint \<times> 't ThreadPool \<Rightarrow> bool \<times> cint \<times> 't ThreadPool \<times> cint option" where
  "submitTask_v2 task gp =
     (case gp of (g, p) \<Rightarrow>
        if \<not> length (taskQue_' p) < size_t_of_int (taskQueMaxThreshHold_' p)
        then (False, g, p, None)
        else
          let p1 = p\<lparr>taskQue_' := taskQue_' p @ [task]\<rparr>;
              p2 = p1\<lparr>taskNum_' := taskNum_' p1 + 1\<rparr>;
              p3 = p2\<lparr>notEmpty_' := []\<rparr>
          in if poolMode_' p3 = MODE_CACHED
                \<and> size_t_of_int (idleThreadNum_' p3) < length (taskQue_' p3)
                \<and> curThreadNum_' p3 <s threadSizeThreshHold_' p3
             then (case spawn_thread (g, p3) of (g', p4, l) \<Rightarrow> (True, g', p4, Some l))
             else (True, g, p3, None))"

section \<open>start\<close>

text \<open>The loop counter \<open>i\<close> stays below \<open>initThreadSize_\<close>, so \<open>i++\<close> does not wrap.\<close>

lemma sint_succ: "(i::cint) <s n \<Longrightarrow> sint (i + 1) = sint i + 1"
  apply (simp add: word_sless_alt sint_word_ariths)
  apply (rule signed_take_bit_int_eq_self)
  using sint_ge[of i] sint_lt[of n] apply simp_all
  done

lemma sint_pred: "(n::cint) <s i \<Longrightarrow> sint (i - 1) = sint i - 1"
  apply (simp add: word_sless_alt sint_word_ariths)
  apply (rule signed_take_bit_int_eq_self)
  using sint_ge[of n] sint_lt[of i] apply simp_all
  done

text \<open>First loop of \<open>start\<close>, the same in both versions: one \<open>Thread\<close> per iteration.\<close>

definition start_create_body :: "cint \<times> 't ThreadPool \<Rightarrow> cint \<times> 't ThreadPool" where
  "start_create_body gp =
     (case gp of (g, p) \<Rightarrow>
        (case Thread_ctor g of (ptr, g') \<Rightarrow>
           (g', p\<lparr>threadMap_' := threadMap_emplace (Thread_getId ptr) ptr (threadMap_' p)\<rparr>)))"

lemma start_create_body_init [simp]:
  "initThreadSize_' (snd (start_create_body gp)) = initThreadSize_' (snd gp)"
  by (simp add: start_create_body_def Thread_ctor_def split: prod.splits)

function start_create :: "cint \<Rightarrow> cint \<times> 't ThreadPool \<Rightarrow> cint \<times> 't ThreadPool" where
  "start_create i gp =
     (if i <s initThreadSize_' (snd gp) then start_create (i + 1) (start_create_body gp)
      else gp)"
  by pat_completeness auto
termination
  by (relation "measure (\<lambda>(i, gp). nat (sint (initThreadSize_' (snd gp)) - sint i))")
     (auto simp: sint_succ word_sless_alt)

text \<open>
  Second loop: \<open>threadMap_[i]->start()\<close> for \<open>i\<close> from 0. 1.0 counts \<open>curThreadNum_\<close> and
  \<open>idleThreadNum_\<close> up here; 2.0 has set \<open>currentThreadNum_\<close> before the loops and counts
  only \<open>idleThreadNum_\<close>. The list collects the threads started.
\<close>

function start_launch_v1 ::
  "cint \<Rightarrow> 't ThreadPool \<times> cint list \<Rightarrow> 'x fault + 't ThreadPool \<times> cint list" where
  "start_launch_v1 i pl =
     (if i <s initThreadSize_' (fst pl) then
        (case threadMap_at i (threadMap_' (fst pl)) of
           None \<Rightarrow> Inl (Null_thread i)
         | Some th \<Rightarrow>
             start_launch_v1 (i + 1)
               ((fst pl)\<lparr>curThreadNum_' := curThreadNum_' (fst pl) + 1,
                         idleThreadNum_' := idleThreadNum_' (fst pl) + 1\<rparr>,
                snd pl @ [Thread_start th]))
      else Inr pl)"
  by pat_completeness auto
termination
  by (relation "measure (\<lambda>(i, pl). nat (sint (initThreadSize_' (fst pl)) - sint i))")
     (auto simp: sint_succ word_sless_alt)

function start_launch_v2 ::
  "cint \<Rightarrow> 't ThreadPool \<times> cint list \<Rightarrow> 'x fault + 't ThreadPool \<times> cint list" where
  "start_launch_v2 i pl =
     (if i <s initThreadSize_' (fst pl) then
        (case threadMap_at i (threadMap_' (fst pl)) of
           None \<Rightarrow> Inl (Null_thread i)
         | Some th \<Rightarrow>
             start_launch_v2 (i + 1)
               ((fst pl)\<lparr>idleThreadNum_' := idleThreadNum_' (fst pl) + 1\<rparr>,
                snd pl @ [Thread_start th]))
      else Inr pl)"
  by pat_completeness auto
termination
  by (relation "measure (\<lambda>(i, pl). nat (sint (initThreadSize_' (fst pl)) - sint i))")
     (auto simp: sint_succ word_sless_alt)

declare start_create.simps [simp del]

declare start_launch_v1.simps [simp del]

declare start_launch_v2.simps [simp del]

text \<open>
  \<open>start\<close>, from the static id counter and the pool to the counter, the pool and the
  threads started, unless a lookup in the second loop finds no \<open>Thread\<close>.
\<close>

definition start_v1 ::
  "cint \<times> 't ThreadPool \<Rightarrow> 'x fault + cint \<times> 't ThreadPool \<times> cint list" where
  "start_v1 gp =
     (case gp of (g, p) \<Rightarrow>
        (case start_create 0 (g, p\<lparr>isPoolRunning_' := True\<rparr>) of (g', p1) \<Rightarrow>
           (case start_launch_v1 0 (p1, []) of
              Inl f \<Rightarrow> Inl f
            | Inr (p2, ls) \<Rightarrow> Inr (g', p2, ls))))"

definition start_v2 ::
  "cint \<times> 't ThreadPool \<Rightarrow> 'x fault + cint \<times> 't ThreadPool \<times> cint list" where
  "start_v2 gp =
     (case gp of (g, p) \<Rightarrow>
        (case start_create 0
                (g, p\<lparr>isPoolRunning_' := True, curThreadNum_' := initThreadSize_' p\<rparr>) of
           (g', p1) \<Rightarrow>
             (case start_launch_v2 0 (p1, []) of
                Inl f \<Rightarrow> Inl f
              | Inr (p2, ls) \<Rightarrow> Inr (g', p2, ls))))"

section \<open>threadFunc\<close>

text \<open>
  One thread running \<open>threadFunc(threadid)\<close> is its argument, its local \<open>lastTime\<close> and the
  place it has reached. The places are where the thread can be while it does not hold
  the mutex:
  \<^item> \<open>Entry\<close>: started, before \<open>lastTime\<close> is first read from the clock;
  \<^item> \<open>Top\<close>: at the head of \<open>for (;;)\<close>, about to lock;
  \<^item> \<open>Waiting\<close>: inside \<open>notEmpty_.wait\<close> (fixed mode) or \<open>notEmpty_.wait_for\<close> (cached
    mode), the mutex released;
  \<^item> \<open>Exec task\<close>: the block that locks is left, \<open>task\<close> is about to be run;
  \<^item> \<open>After_exec\<close>: the task has returned, \<open>idleThreadNum_++\<close> comes next;
  \<^item> \<open>Exit_shutdown\<close>: returned because the pool is no longer running;
  \<^item> \<open>Exit_idle\<close>: returned because the thread was idle for too long;
  \<^item> \<open>Uncaught f task\<close>: \<open>f\<close> left the call that runs \<open>task\<close>; \<open>threadFunc\<close> has no
    handler, so it left \<open>threadFunc\<close> too and the process was terminated.
  The queue never holds a null task (1.0 dereferences the pointer in \<open>Result\<close>'s
  constructor, 2.0 queues a lambda), so the test \<open>task != nullptr\<close> is always passed.
\<close>

datatype ('x, 't) pc =
  Entry | Top | Waiting | Exec 't | After_exec | Exit_shutdown | Exit_idle
  | Uncaught "'x fault" 't

record ('x, 't) worker =
  threadid :: cint
  pc :: "('x, 't) pc"
  lastTime :: int

datatype cv_status = no_timeout | timeout

text \<open>
  The \<open>while (taskQue_.size() == 0)\<close> loop from its condition, with the mutex held, up
  to the next place: with a task in the queue the loop is left and the task taken
  (\<open>idleThreadNum_--\<close>, \<open>front\<close>, \<open>pop\<close>, \<open>taskNum_--\<close>, \<open>notify_all\<close>); with an empty
  queue the thread returns if the pool is not running and waits otherwise.
\<close>

definition while_taskQue_empty ::
  "('x, 't) worker \<Rightarrow> 't ThreadPool \<Rightarrow> ('x, 't) worker \<times> 't ThreadPool" where
  "while_taskQue_empty w p =
     (if length (taskQue_' p) = 0 then
        (if \<not> isPoolRunning_' p
         then (w\<lparr>pc := Exit_shutdown\<rparr>,
               p\<lparr>threadMap_' := threadMap_erase (threadid w) (threadMap_' p)\<rparr>)
         else (w\<lparr>pc := Waiting\<rparr>, p\<lparr>notEmpty_' := notEmpty_' p @ [threadid w]\<rparr>))
      else
        (let p1 = p\<lparr>idleThreadNum_' := idleThreadNum_' p - 1\<rparr>;
             task = hd (taskQue_' p1);
             p2 = p1\<lparr>taskQue_' := tl (taskQue_' p1)\<rparr>;
             p3 = p2\<lparr>taskNum_' := taskNum_' p2 - 1\<rparr>;
             p4 = (if 0 < length (taskQue_' p3) then p3\<lparr>notEmpty_' := []\<rparr> else p3)
         in (w\<lparr>pc := Exec task\<rparr>, p4)))"

text \<open>
  The wait has returned with the mutex held again: \<open>st\<close> is what \<open>wait_for\<close> returned
  (read in cached mode only), \<open>now\<close> the clock.
\<close>

definition after_wait ::
  "cv_status \<Rightarrow> int \<Rightarrow> ('x, 't) worker \<Rightarrow> 't ThreadPool \<Rightarrow> ('x, 't) worker \<times> 't ThreadPool" where
  "after_wait st now w p =
     (let p0 = p\<lparr>notEmpty_' := remove1 (threadid w) (notEmpty_' p)\<rparr> in
      if poolMode_' p0 = MODE_CACHED then
        (if st = timeout then
           (let dur = duration_cast_seconds (now - lastTime w) in
            if THREAD_MAX_IDLE_TIME \<le> dur \<and> initThreadSize_' p0 <s curThreadNum_' p0
            then (w\<lparr>pc := Exit_idle\<rparr>,
                  p0\<lparr>threadMap_' := threadMap_erase (threadid w) (threadMap_' p0),
                     curThreadNum_' := curThreadNum_' p0 - 1,
                     idleThreadNum_' := idleThreadNum_' p0 - 1\<rparr>)
            else while_taskQue_empty w p0)
         else while_taskQue_empty w p0)
      else while_taskQue_empty w p0)"

text \<open>
  One step of a thread, from one place to the next. \<open>exec\<close> is the call that runs a
  task: \<open>Task_exec\<close> in 1.0, \<open>packaged_task_invoke\<close> in 2.0. A thread that has returned
  has no step.
\<close>

definition threadFunc_step ::
  "('t \<Rightarrow> 'h \<Rightarrow> 'x fault + 'h) \<Rightarrow> cv_status \<Rightarrow> int \<Rightarrow>
   ('x, 't) worker \<times> 't ThreadPool \<times> 'h \<Rightarrow> (('x, 't) worker \<times> 't ThreadPool \<times> 'h) option" where
  "threadFunc_step exec st now wph =
     (case wph of (w, p, h) \<Rightarrow>
        (case pc w of
           Entry \<Rightarrow> Some (w\<lparr>pc := Top, lastTime := now\<rparr>, p, h)
         | Top \<Rightarrow> (case while_taskQue_empty w p of (w', p') \<Rightarrow> Some (w', p', h))
         | Waiting \<Rightarrow> (case after_wait st now w p of (w', p') \<Rightarrow> Some (w', p', h))
         | Exec task \<Rightarrow>
             (case exec task h of
                Inl f \<Rightarrow> Some (w\<lparr>pc := Uncaught f task\<rparr>, p, h)
              | Inr h' \<Rightarrow> Some (w\<lparr>pc := After_exec\<rparr>, p, h'))
         | After_exec \<Rightarrow>
             Some (w\<lparr>pc := Top, lastTime := now\<rparr>,
                   p\<lparr>idleThreadNum_' := idleThreadNum_' p + 1\<rparr>, h)
         | Exit_shutdown \<Rightarrow> None
         | Exit_idle \<Rightarrow> None
         | Uncaught f task \<Rightarrow> None))"

section \<open>The destructor\<close>

text \<open>
  The destructor clears the running flag without the mutex (\<open>Dtor_entry\<close> to
  \<open>Dtor_locking\<close>), then locks, notifies every waiter of \<open>notEmpty_\<close> and waits on
  \<open>exitCond_\<close> with a predicate: it returns when the predicate holds and waits
  (\<open>Dtor_waiting\<close>) otherwise, testing again whenever it is woken. The predicate of 1.0
  is \<open>threadMap_.size() == 0\<close>, that of 2.0 is \<open>taskQue_.size() == 0\<close>.
\<close>

datatype dtor_pc = Dtor_entry | Dtor_locking | Dtor_waiting | Dtor_returned

definition dtor_step_v1 :: "dtor_pc \<times> 't ThreadPool \<Rightarrow> (dtor_pc \<times> 't ThreadPool) option" where
  "dtor_step_v1 dp =
     (case dp of (d, p) \<Rightarrow>
        (case d of
           Dtor_entry \<Rightarrow> Some (Dtor_locking, p\<lparr>isPoolRunning_' := False\<rparr>)
         | Dtor_locking \<Rightarrow>
             (let p1 = p\<lparr>notEmpty_' := []\<rparr> in
              Some (if threadMap_size (threadMap_' p1) = 0 then Dtor_returned else Dtor_waiting,
                    p1))
         | Dtor_waiting \<Rightarrow>
             Some (if threadMap_size (threadMap_' p) = 0 then Dtor_returned else Dtor_waiting, p)
         | Dtor_returned \<Rightarrow> None))"

definition dtor_step_v2 :: "dtor_pc \<times> 't ThreadPool \<Rightarrow> (dtor_pc \<times> 't ThreadPool) option" where
  "dtor_step_v2 dp =
     (case dp of (d, p) \<Rightarrow>
        (case d of
           Dtor_entry \<Rightarrow> Some (Dtor_locking, p\<lparr>isPoolRunning_' := False\<rparr>)
         | Dtor_locking \<Rightarrow>
             (let p1 = p\<lparr>notEmpty_' := []\<rparr> in
              Some (if length (taskQue_' p1) = 0 then Dtor_returned else Dtor_waiting, p1))
         | Dtor_waiting \<Rightarrow>
             Some (if length (taskQue_' p) = 0 then Dtor_returned else Dtor_waiting, p)
         | Dtor_returned \<Rightarrow> None))"

section \<open>The pool and its threads together\<close>

text \<open>
  The process as far as one pool is concerned: the pool, the static id counter, the
  threads started so far (a thread that has returned stays in the list), the store of
  tasks and result handles, and where the destructor is. \<open>accepted\<close> and \<open>completed\<close>
  are not in the source: they record the tasks in the order \<open>submitTask\<close> queued them
  and in the order their execution returned. \<open>aborted\<close> is set once the process has
  hit undefined behaviour in \<open>start\<close> or an exception has left a thread; nothing runs
  after that.

  An event is one atomic step of one party: \<open>start()\<close>, a \<open>submitTask\<close>, a step of
  thread number \<open>k\<close> (with what its wait returned and the clock), a step of the
  destructor, or anything the rest of the program does to the store (building tasks,
  constructing and reading result handles). \<open>start()\<close> runs without the mutex; the
  event runs it in one piece. A wait may return at any time (condition variables wake
  spuriously), so a waiting thread and a waiting destructor can always step.
\<close>

datatype version = V1 | V2

record ('x, 't, 'h) system =
  pool :: "'t ThreadPool"
  generateId_' :: cint
  threads :: "('x, 't) worker list"
  heap :: 'h
  dtor :: dtor_pc
  aborted :: bool
  accepted :: "'t list"
  completed :: "'t list"

datatype ('t, 'h) event =
  Ev_start | Ev_submit 't | Ev_thread nat cv_status int | Ev_dtor | Ev_env "'h \<Rightarrow> 'h"

definition new_thread :: "cint \<Rightarrow> ('x, 't) worker" where
  "new_thread i = \<lparr>threadid = i, pc = Entry, lastTime = 0\<rparr>"

definition initial_system :: "'t ThreadPool \<Rightarrow> cint \<Rightarrow> 'h \<Rightarrow> ('x, 't, 'h) system" where
  "initial_system p g h =
     \<lparr>pool = p, generateId_' = g, threads = [], heap = h, dtor = Dtor_entry,
      aborted = False, accepted = [], completed = []\<rparr>"

definition start_of :: "version \<Rightarrow> cint \<times> 't ThreadPool \<Rightarrow> 'x fault + cint \<times> 't ThreadPool \<times> cint list" where
  "start_of v = (case v of V1 \<Rightarrow> start_v1 | V2 \<Rightarrow> start_v2)"

definition submitTask_of ::
  "version \<Rightarrow> 't \<Rightarrow> cint \<times> 't ThreadPool \<Rightarrow> bool \<times> cint \<times> 't ThreadPool \<times> cint option" where
  "submitTask_of v = (case v of V1 \<Rightarrow> submitTask_v1 | V2 \<Rightarrow> submitTask_v2)"

definition dtor_step_of :: "version \<Rightarrow> dtor_pc \<times> 't ThreadPool \<Rightarrow> (dtor_pc \<times> 't ThreadPool) option" where
  "dtor_step_of v = (case v of V1 \<Rightarrow> dtor_step_v1 | V2 \<Rightarrow> dtor_step_v2)"

definition is_Uncaught :: "('x, 't) pc \<Rightarrow> bool" where
  "is_Uncaught c = (case c of Uncaught f t \<Rightarrow> True | _ \<Rightarrow> False)"

definition finished :: "('x, 't) pc \<Rightarrow> ('x, 't) pc \<Rightarrow> 't list" where
  "finished c c' = (case c of Exec t \<Rightarrow> (if c' = After_exec then [t] else []) | _ \<Rightarrow> [])"

definition sys_step ::
  "version \<Rightarrow> ('t \<Rightarrow> 'h \<Rightarrow> 'x fault + 'h) \<Rightarrow> ('t, 'h) event \<Rightarrow>
   ('x, 't, 'h) system \<Rightarrow> ('x, 't, 'h) system option" where
  "sys_step v exec ev s =
     (if aborted s then None
      else case ev of
        Ev_start \<Rightarrow>
          (case (start_of v (generateId_' s, pool s)
                   :: 'x fault + cint \<times> 't ThreadPool \<times> cint list) of
             Inl f \<Rightarrow> Some (s\<lparr>aborted := True\<rparr>)
           | Inr (g, p, ls) \<Rightarrow>
               Some (s\<lparr>pool := p, generateId_' := g,
                       threads := threads s @ map new_thread ls\<rparr>))
      | Ev_submit t \<Rightarrow>
          (case submitTask_of v t (generateId_' s, pool s) of
             (ok, g, p, l) \<Rightarrow>
               Some (s\<lparr>pool := p, generateId_' := g,
                       threads := threads s @ map new_thread (case l of None \<Rightarrow> [] | Some i \<Rightarrow> [i]),
                       accepted := accepted s @ (if ok then [t] else [])\<rparr>))
      | Ev_thread k st now \<Rightarrow>
          (if k < length (threads s) then
             (case threadFunc_step exec st now (threads s ! k, pool s, heap s) of
                None \<Rightarrow> None
              | Some (w, p, h) \<Rightarrow>
                  Some (s\<lparr>pool := p, threads := (threads s)[k := w], heap := h,
                          aborted := is_Uncaught (pc w),
                          completed := completed s @ finished (pc (threads s ! k)) (pc w)\<rparr>))
           else None)
      | Ev_dtor \<Rightarrow>
          (case dtor_step_of v (dtor s, pool s) of
             None \<Rightarrow> None
           | Some (d, p) \<Rightarrow> Some (s\<lparr>pool := p, dtor := d\<rparr>))
      | Ev_env f \<Rightarrow> Some (s\<lparr>heap := f (heap s)\<rparr>))"

text \<open>A run: the events one after the other, as long as each has a step.\<close>

fun run_events ::
  "version \<Rightarrow> ('t \<Rightarrow> 'h \<Rightarrow> 'x fault + 'h) \<Rightarrow> ('t, 'h) event list \<Rightarrow>
   ('x, 't, 'h) system \<Rightarrow> ('x, 't, 'h) system option" where
  "run_events v exec [] s = Some s"
| "run_events v exec (ev # evs) s =
     (case sys_step v exec ev s of None \<Rightarrow> None | Some s' \<Rightarrow> run_events v exec evs s')"

text \<open>The tasks taken from the queue whose execution has not returned.\<close>

definition held_by :: "('x, 't) worker \<Rightarrow> 't list" where
  "held_by w = (case pc w of Exec t \<Rightarrow> [t] | Uncaught f t \<Rightarrow> [t] | _ \<Rightarrow> [])"

definition in_flight :: "('x, 't) worker list \<Rightarrow> 't list" where
  "in_flight ws = concat (map held_by ws)"

definition exited :: "('x, 't) worker \<Rightarrow> bool" where
  "exited w = (pc w = Exit_shutdown \<or> pc w = Exit_idle)"

text \<open>
  The registry holds exactly the ids from 0 up to, not including, \<open>i\<close>, each with
  the \<open>Thread\<close> that was given that id.
\<close>

definition registered_below :: "cint \<Rightarrow> (cint \<times> Thread) list \<Rightarrow> bool" where
  "registered_below i m \<longleftrightarrow>
     (\<forall>j. threadMap_at j m = (if 0 \<le>s j \<and> j <s i then Some \<lparr>threadId_' = j\<rparr> else None))"

text \<open>
  What is proved of every state a run reaches. Every accepted task is completed, in
  the hands of a thread or in the queue, each as often as it was accepted
  (\<open>accounted\<close>); and while at most one thread exists, the accepted tasks are, in their
  order, the completed ones, then the one in hand, then the queue (\<open>in_order\<close>).
\<close>

definition accounted :: "('x, 't, 'h) system \<Rightarrow> bool" where
  "accounted s \<longleftrightarrow>
     mset (accepted s)
       = mset (completed s) + mset (in_flight (threads s)) + mset (taskQue_' (pool s))"

definition in_order :: "('x, 't, 'h) system \<Rightarrow> bool" where
  "in_order s \<longleftrightarrow>
     (length (threads s) \<le> 1 \<longrightarrow>
        accepted s = completed s @ in_flight (threads s) @ taskQue_' (pool s))"

text \<open>
  A call on the store made by the rest of the program, as an \<open>Ev_env\<close> event: the store
  after the call when it returns, the store as it was when it does not.
\<close>

definition returning :: "('h \<Rightarrow> 'f + 'h) \<Rightarrow> 'h \<Rightarrow> 'h" where
  "returning c h = (case c h of Inl f \<Rightarrow> h | Inr h' \<Rightarrow> h')"

section \<open>The configuration the specification asks for\<close>

text \<open>
  The configuration the specification calls valid, in its words:
  \<open>0 < initialCount \<le> maxCount\<close> and \<open>queueCapacity > 0\<close>. Nothing in the source computes it.
\<close>

definition valid_configuration :: "cint \<Rightarrow> cint \<Rightarrow> cint \<Rightarrow> bool" where
  "valid_configuration initialCount maxCount queueCapacity =
     (0 <s initialCount \<and> initialCount \<le>s maxCount \<and> 0 <s queueCapacity)"

section \<open>Reading a result handle\<close>

text \<open>
  In ThreadPool2.0 the handle is a \<open>std::future\<close>. The future of an accepted task
  blocks while the packaged task has not been invoked and returns the value once a
  worker has invoked it; the future of a rejected submission is ready with \<open>RType()\<close>
  when \<open>submitTask\<close> returns.
\<close>

lemma future_blocks_until_invoked_v2:
  "future_get a (make_packaged_task a (Inr y) h) = Blocks
   \<and> (\<exists>h'. packaged_task_invoke a (make_packaged_task a (Inr y) h) = Inr h'
           \<and> future_get a h' = Returns (Inr y))
   \<and> (\<exists>h'. rejected_future a rtype0 h = Inr h' \<and> future_get a h' = Returns (Inr rtype0))"
  by (simp add: future_get_def make_packaged_task_def packaged_task_invoke_def
      rejected_future_def)

text \<open>
  Claim C1. \<open>read()\<close> blocks the caller until the handle is filled and then yields the
  posted value; a handle marked invalid at creation returns an empty value at once.
  In ThreadPool1.0 the test in \<open>Result::get\<close> is the wrong way round. A handle with
  \<open>isValid_\<close> set, which is what an accepted submission returns, yields the empty C
  string at once, before a value is posted and after the value \<open>v\<close> has been posted
  alike. The handle \<open>Result(sp, false)\<close> of a rejected submission, whose semaphore is
  at 0 and whose task is in no queue, makes \<open>get\<close> block.
\<close>

theorem Result_get_tests_isValid_inverted:
  "fst (Result_get (r\<lparr>isValid_' := True\<rparr>)) = Returns (Any_cstr '''')
   \<and> fst (Result_get (Result_setVal (Any_of v) (r\<lparr>isValid_' := True\<rparr>))) = Returns (Any_cstr '''')
   \<and> fst (Result_get \<lparr>any_' = Any_empty, sem_' = \<lparr>resLimit_' = 0\<rparr>, task_' = sp,
                        isValid_' = False\<rparr>) = Blocks"
  by (simp add: Result_get_def Result_setVal_def Semaphore_wait_def)

section \<open>Construction accepts every configuration\<close>

text \<open>
  Claim C4, as stated: construction validates the configuration and rejects an invalid
  one. It does not: with \<open>initialCount = 0\<close>, \<open>maxCount = 0\<close> and \<open>queueCapacity = 0\<close>
  both constructors return a pool.
\<close>

theorem construct_accepts_zero_sizes:
  "\<not> valid_configuration 0 0 0
   \<and> construct_v1 0 0 0 MODE_FIXED False
       = (Inr (ThreadPool_v1 0 0 0 MODE_FIXED False) :: ctor_error + nat ThreadPool)
   \<and> construct_v2 MODE_FIXED 0 0 0
       = (Inr (ThreadPool_v2 MODE_FIXED 0 0 0) :: ctor_error + nat ThreadPool)"
  by (simp add: valid_configuration_def construct_v1_def construct_v2_def)

text \<open>
  Claim C4, amended: construction checks nothing. For every mode and every three
  sizes, valid or not, it returns a pool that holds exactly the values given, with an
  empty registry, an empty queue and both counters at 0; no thread exists in the
  system that starts from it (construction and activation are separate).
\<close>

theorem construct_stores_arguments_unchecked:
  "(\<exists>p. construct_v1 initialCount maxCount queueCapacity mode r0 = Inr p
        \<and> initThreadSize_' p = initialCount \<and> threadSizeThreshHold_' p = maxCount
        \<and> taskQueMaxThreshHold_' p = queueCapacity \<and> poolMode_' p = mode
        \<and> threadMap_' p = [] \<and> taskQue_' p = []
        \<and> curThreadNum_' p = 0 \<and> idleThreadNum_' p = 0
        \<and> threads (initial_system p g h) = [])
   \<and> (\<exists>p. construct_v2 mode initialCount maxCount queueCapacity = Inr p
        \<and> initThreadSize_' p = initialCount \<and> threadSizeThreshHold_' p = maxCount
        \<and> taskQueMaxThreshHold_' p = queueCapacity \<and> poolMode_' p = mode
        \<and> threadMap_' p = [] \<and> taskQue_' p = []
        \<and> curThreadNum_' p = 0 \<and> idleThreadNum_' p = 0 \<and> \<not> isPoolRunning_' p
        \<and> threads (initial_system p g h) = [])"
  by (simp add: construct_v1_def construct_v2_def ThreadPool_v1_def ThreadPool_v2_def
      initial_system_def)

section \<open>Shutdown\<close>

text \<open>
  ThreadPool1.0 waits for the registry: its destructor returns only from a pool whose
  \<open>threadMap_\<close> is empty.
\<close>

lemma dtor_v1_returns_with_empty_registry:
  "dtor_step_v1 (d, p) = Some (Dtor_returned, p') \<Longrightarrow> threadMap_' p' = []"
  by (auto simp: dtor_step_v1_def threadMap_size_def Let_def split: dtor_pc.splits if_splits)

text \<open>
  Claim C2. Shutdown sets the running flag to false, wakes every worker waiting for
  work and returns only after the registry of live workers is empty.
  The destructor of ThreadPool2.0 waits for \<open>taskQue_.size() == 0\<close> instead: with an
  empty queue it returns at once, whatever the registry holds. In the run below a fixed
  pool of one worker is started, the worker reaches its wait, and the destructor runs:
  it has cleared the flag, notified \<open>notEmpty_\<close> and returned while worker 0 is still
  registered and has not yet left its wait. The same run of ThreadPool1.0 leaves the
  destructor waiting.
\<close>

theorem dtor_v2_returns_with_registered_worker:
  "dtor_step_v2 (Dtor_locking, p\<lparr>taskQue_' := []\<rparr>)
     = Some (Dtor_returned, p\<lparr>taskQue_' := [], notEmpty_' := []\<rparr>)
   \<and> map_option (\<lambda>s. (dtor s, isPoolRunning_' (pool s), notEmpty_' (pool s),
                        threadMap_' (pool s), map pc (threads s)))
       (run_events V2 packaged_task_invoke
          [Ev_start, Ev_thread 0 no_timeout 0, Ev_thread 0 no_timeout 0, Ev_dtor, Ev_dtor]
          (initial_system (ThreadPool_v2 MODE_FIXED 1 1024 2) 0
             (Map.empty :: (string, int) store2)))
     = Some (Dtor_returned, False, [], [(0, \<lparr>threadId_' = 0\<rparr>)], [Waiting])
   \<and> map_option (\<lambda>s. (dtor s, isPoolRunning_' (pool s), notEmpty_' (pool s),
                        threadMap_' (pool s), map pc (threads s)))
       (run_events V1 Task_exec
          [Ev_start, Ev_thread 0 no_timeout 0, Ev_thread 0 no_timeout 0, Ev_dtor, Ev_dtor]
          (initial_system (ThreadPool_v1 1 1024 2 MODE_FIXED False) 0
             (\<lparr>tasks = Map.empty, results = Map.empty\<rparr> :: (string, int) store)))
     = Some (Dtor_waiting, False, [], [(0, \<lparr>threadId_' = 0\<rparr>)], [Waiting])"
proof (intro conjI)
  show "dtor_step_v2 (Dtor_locking, p\<lparr>taskQue_' := []\<rparr>)
          = Some (Dtor_returned, p\<lparr>taskQue_' := [], notEmpty_' := []\<rparr>)"
    by (simp add: dtor_step_v2_def)
qed (code_simp, code_simp)

section \<open>A task that throws\<close>

text \<open>
  Claim C3, as stated: a fault raised by an executing task is captured and delivered
  through the result handle; it never leaves the worker's loop and never ends the
  worker. In ThreadPool1.0 it does both. The task at address 0 throws; it is submitted
  to a started fixed pool, its \<open>Result\<close> is constructed at address 1, and thread 0 takes
  it and runs it: the exception leaves \<open>threadFunc\<close>, the process is over, the task is
  not completed and its \<open>Result\<close> is as it was built (nothing posted, semaphore at 0).
\<close>

theorem task_fault_leaves_threadFunc_v1:
  "map_option (\<lambda>s. (aborted s, map pc (threads s), accepted s, completed s,
                    map_option (\<lambda>r. (isValid_' r, resLimit_' (sem_' r), any_' r)) (results (heap s) 1)))
     (run_events V1 Task_exec
        [Ev_start, Ev_submit 0, Ev_env (returning (Result_ctor 1 0 True)),
         Ev_thread 0 no_timeout 0, Ev_thread 0 no_timeout 0, Ev_thread 0 no_timeout 0]
        (initial_system (ThreadPool_v1 1 1024 4 MODE_FIXED False) 0
           \<lparr>tasks = [0 \<mapsto> \<lparr>run = Inl ''fault'', result_' = None\<rparr>], results = Map.empty\<rparr>))
   = Some (True, [Uncaught (Thrown ''fault'') 0], [0], [], Some (True, 0, Any_empty :: int Any))"
  by code_simp

text \<open>
  Claim C3, amended. In ThreadPool2.0 a fault raised by an executing task is captured
  by its packaged task and delivered through the future as an error state: the worker
  that runs the task goes on to \<open>After_exec\<close> and from there to the head of its loop, and
  reading the future rethrows the fault. In ThreadPool1.0 nothing captures it: the
  fault leaves \<open>Task::exec\<close> and \<open>threadFunc\<close>, the store is unchanged (no value is posted
  to the \<open>Result\<close>) and the thread has no further step.
\<close>

theorem task_fault_captured_by_packaged_task_only:
  "(pc w = Exec a \<longrightarrow> h2 a = Some pt \<longrightarrow> state pt = Not_ready \<longrightarrow> stored pt = Inl e \<longrightarrow>
     (\<exists>h'. threadFunc_step packaged_task_invoke st now (w, p, h2)
               = Some (w\<lparr>pc := After_exec\<rparr>, p, h')
         \<and> future_get a h' = Returns (Inl (Thrown e))
         \<and> threadFunc_step packaged_task_invoke st' now' (w\<lparr>pc := After_exec\<rparr>, p, h')
             = Some (w\<lparr>pc := Top, lastTime := now'\<rparr>,
                     p\<lparr>idleThreadNum_' := idleThreadNum_' p + 1\<rparr>, h')))
   \<and> (pc w = Exec a \<longrightarrow> tasks h1 a = Some t \<longrightarrow> run t = Inl e \<longrightarrow> result_' t = Some r \<longrightarrow>
        Task_exec a h1 = Inl (Thrown e)
        \<and> threadFunc_step Task_exec st now (w, p, h1)
            = Some (w\<lparr>pc := Uncaught (Thrown e) a\<rparr>, p, h1)
        \<and> threadFunc_step Task_exec st' now' (w\<lparr>pc := Uncaught (Thrown e) a\<rparr>, p, h1) = None)"
  by (auto simp: threadFunc_step_def packaged_task_invoke_def future_get_def Task_exec_def)

theorem task_fault_captured_by_packaged_task_only_witness:
  "(\<exists>h'. threadFunc_step packaged_task_invoke no_timeout 7
            (\<lparr>threadid = 0, pc = Exec 5, lastTime = 3\<rparr>,
             ThreadPool_v2 MODE_FIXED 1 1024 2,
             [5 \<mapsto> \<lparr>stored = Inl ''fault'', state = Not_ready\<rparr>])
          = Some (\<lparr>threadid = 0, pc = After_exec, lastTime = 3\<rparr>,
                  ThreadPool_v2 MODE_FIXED 1 1024 2, h')
        \<and> future_get 5 h' = (Returns (Inl (Thrown ''fault'')) :: (string fault + int) blocking))
   \<and> Task_exec 5 \<lparr>tasks = [5 \<mapsto> \<lparr>run = Inl ''fault'', result_' = Some 6\<rparr>],
                   results = (Map.empty :: nat \<rightharpoonup> int Result)\<rparr>
       = Inl (Thrown ''fault'')"
  using task_fault_captured_by_packaged_task_only
    [where w = "\<lparr>threadid = 0, pc = Exec 5, lastTime = 3\<rparr>" and a = 5
       and ?h2.0 = "[5 \<mapsto> \<lparr>stored = Inl ''fault'', state = Not_ready\<rparr>]"
       and pt = "\<lparr>stored = Inl ''fault'', state = Not_ready\<rparr>" and e = "''fault''"
       and ?h1.0 = "\<lparr>tasks = [5 \<mapsto> \<lparr>run = Inl ''fault'', result_' = Some 6\<rparr>],
                     results = (Map.empty :: nat \<rightharpoonup> int Result)\<rparr>"
       and t = "\<lparr>run = Inl ''fault'', result_' = Some 6\<rparr>" and r = 6
       and st = no_timeout and now = 7 and st' = no_timeout and now' = 8
       and p = "ThreadPool_v2 MODE_FIXED 1 1024 2"]
  by auto

section \<open>The value read back\<close>

text \<open>
  ThreadPool2.0 returns what the task computed: once the worker has invoked the
  packaged task of \<open>func(args...)\<close>, the future yields the value of \<open>func\<close> at \<open>args\<close>.
\<close>

lemma future_yields_value_v2:
  "h a = Some \<lparr>stored = std_bind f x, state = Not_ready\<rparr> \<Longrightarrow> f x = Inr y \<Longrightarrow>
   \<exists>h'. packaged_task_invoke a h = Inr h' \<and> future_get a h' = Returns (Inr y)"
  by (simp add: packaged_task_invoke_def future_get_def std_bind_def)

text \<open>
  Claim C9. For a pure \<open>f\<close> and an \<open>x\<close> whose submission a running pool accepts, reading
  the handle returned yields \<open>f(x)\<close>.
  In ThreadPool1.0 it yields the empty C string. The task at address 0 returns 42; it
  is submitted to a started fixed pool and accepted, \<open>submitTask\<close> returns \<open>Result(sp)\<close>
  (constructed at address 1), thread 0 takes the task and runs it to the end. The
  \<open>Result\<close> then holds 42 and its semaphore is at 1, and \<open>get()\<close> on it returns \<open>""\<close>.
\<close>

theorem accepted_task_value_not_read_back_v1:
  "map_option (\<lambda>s. (accepted s, completed s,
                    map_option (\<lambda>r. (any_' r, resLimit_' (sem_' r), fst (Result_get r)))
                      (results (heap s) 1)))
     (run_events V1 Task_exec
        [Ev_start, Ev_submit 0, Ev_env (returning (Result_ctor 1 0 True)),
         Ev_thread 0 no_timeout 0, Ev_thread 0 no_timeout 0, Ev_thread 0 no_timeout 0]
        (initial_system (ThreadPool_v1 1 1024 4 MODE_FIXED False) 0
           (\<lparr>tasks = [0 \<mapsto> \<lparr>run = Inr (Any_of 42), result_' = None\<rparr>], results = Map.empty\<rparr>
             :: (string, int) store)))
   = Some ([0], [0], Some (Any_of 42, 1, Returns (Any_cstr '''')))"
  by code_simp

section \<open>The thread count between its bounds\<close>

text \<open>Signed comparisons next to \<open>++\<close> and \<open>--\<close> that do not wrap.\<close>

lemma sless_succ_sle: "(a::cint) <s b \<Longrightarrow> a + 1 \<le>s b"
  by (simp add: word_sle_eq sint_succ) (simp add: word_sless_alt)

lemma sless_sle_succ: "(a::cint) <s b \<Longrightarrow> a \<le>s a + 1"
  by (simp add: word_sle_eq sint_succ)

lemma sless_sle_pred: "(n::cint) <s i \<Longrightarrow> n \<le>s i - 1"
  by (simp add: word_sle_eq sint_pred) (simp add: word_sless_alt)

lemma sless_pred_sle: "(n::cint) <s i \<Longrightarrow> i - 1 \<le>s i"
  by (simp add: word_sle_eq sint_pred)

lemma sle_trans: "(a::cint) \<le>s b \<Longrightarrow> b \<le>s c \<Longrightarrow> a \<le>s c"
  by (simp add: word_sle_eq)

lemma spawn_thread_fields:
  "spawn_thread (g, p) = (g', p', l) \<Longrightarrow>
     curThreadNum_' p' = curThreadNum_' p + 1 \<and> idleThreadNum_' p' = idleThreadNum_' p + 1
     \<and> threadSizeThreshHold_' p' = threadSizeThreshHold_' p
     \<and> initThreadSize_' p' = initThreadSize_' p
     \<and> taskQue_' p' = taskQue_' p \<and> taskNum_' p' = taskNum_' p
     \<and> poolMode_' p' = poolMode_' p \<and> isPoolRunning_' p' = isPoolRunning_' p
     \<and> taskQueMaxThreshHold_' p' = taskQueMaxThreshHold_' p
     \<and> notEmpty_' p' = notEmpty_' p"
  by (auto simp: spawn_thread_def split: prod.splits)

lemma submitTask_bounds:
  "submitTask_of v t (g, p) = (ok, g', p', l) \<Longrightarrow>
     threadSizeThreshHold_' p' = threadSizeThreshHold_' p
     \<and> initThreadSize_' p' = initThreadSize_' p
     \<and> (curThreadNum_' p \<le>s threadSizeThreshHold_' p \<longrightarrow> curThreadNum_' p' \<le>s threadSizeThreshHold_' p)
     \<and> (initThreadSize_' p \<le>s curThreadNum_' p \<longrightarrow> initThreadSize_' p \<le>s curThreadNum_' p')"
  apply (cases v)
   apply (auto simp: submitTask_of_def submitTask_v1_def submitTask_v2_def Let_def
      split: if_splits prod.splits dest!: spawn_thread_fields
      intro: sless_succ_sle sle_trans[OF _ sless_sle_succ])
  done


lemma while_taskQue_empty_fields:
  "while_taskQue_empty w p = (w', p') \<Longrightarrow>
     curThreadNum_' p' = curThreadNum_' p
     \<and> threadSizeThreshHold_' p' = threadSizeThreshHold_' p
     \<and> initThreadSize_' p' = initThreadSize_' p
     \<and> pc w' \<noteq> Exit_idle"
  by (auto simp: while_taskQue_empty_def Let_def split: if_splits)

lemma after_wait_cases:
  "after_wait st now w p = (w', p') \<Longrightarrow>
     threadSizeThreshHold_' p' = threadSizeThreshHold_' p
     \<and> initThreadSize_' p' = initThreadSize_' p
     \<and> (pc w' = Exit_idle \<longleftrightarrow>
          poolMode_' p = MODE_CACHED \<and> st = timeout
          \<and> 60 \<le> duration_cast_seconds (now - lastTime w)
          \<and> initThreadSize_' p <s curThreadNum_' p)
     \<and> (pc w' = Exit_idle \<longrightarrow>
          threadMap_' p' = threadMap_erase (threadid w) (threadMap_' p)
          \<and> curThreadNum_' p' = curThreadNum_' p - 1
          \<and> idleThreadNum_' p' = idleThreadNum_' p - 1)
     \<and> (pc w' \<noteq> Exit_idle \<longrightarrow> curThreadNum_' p' = curThreadNum_' p)"
  by (auto simp: after_wait_def Let_def THREAD_MAX_IDLE_TIME_def
      split: if_splits dest!: while_taskQue_empty_fields)

lemma threadFunc_step_cases:
  "threadFunc_step exec st now (w, p, h) = Some (w', p', h') \<Longrightarrow>
     threadSizeThreshHold_' p' = threadSizeThreshHold_' p
     \<and> initThreadSize_' p' = initThreadSize_' p
     \<and> (pc w' = Exit_idle \<longleftrightarrow>
          pc w = Waiting \<and> poolMode_' p = MODE_CACHED \<and> st = timeout
          \<and> 60 \<le> duration_cast_seconds (now - lastTime w)
          \<and> initThreadSize_' p <s curThreadNum_' p)
     \<and> (pc w' = Exit_idle \<longrightarrow>
          threadMap_' p' = threadMap_erase (threadid w) (threadMap_' p)
          \<and> curThreadNum_' p' = curThreadNum_' p - 1
          \<and> idleThreadNum_' p' = idleThreadNum_' p - 1)
     \<and> (pc w' \<noteq> Exit_idle \<longrightarrow> curThreadNum_' p' = curThreadNum_' p)"
  apply (cases "pc w")
         apply (auto simp: threadFunc_step_def split: prod.splits sum.splits
      dest!: while_taskQue_empty_fields)
  apply (auto dest!: after_wait_cases)
  done

lemma threadFunc_step_bounds:
  assumes "threadFunc_step exec st now (w, p, h) = Some (w', p', h')"
  shows "threadSizeThreshHold_' p' = threadSizeThreshHold_' p
     \<and> initThreadSize_' p' = initThreadSize_' p
     \<and> (curThreadNum_' p \<le>s threadSizeThreshHold_' p \<longrightarrow> curThreadNum_' p' \<le>s threadSizeThreshHold_' p)
     \<and> (initThreadSize_' p \<le>s curThreadNum_' p \<longrightarrow> initThreadSize_' p \<le>s curThreadNum_' p')"
proof (cases "pc w' = Exit_idle")
  case True
  with threadFunc_step_cases[OF assms]
  have lt: "initThreadSize_' p <s curThreadNum_' p"
    and c: "curThreadNum_' p' = curThreadNum_' p - 1"
    and f: "threadSizeThreshHold_' p' = threadSizeThreshHold_' p" "initThreadSize_' p' = initThreadSize_' p"
    by auto
  show ?thesis
    using f c sless_sle_pred[OF lt] sle_trans[OF sless_pred_sle[OF lt]] by auto
next
  case False
  with threadFunc_step_cases[OF assms] show ?thesis by auto
qed

lemma dtor_step_fields:
  "dtor_step_of v (d, p) = Some (d', p') \<Longrightarrow>
     curThreadNum_' p' = curThreadNum_' p
     \<and> threadSizeThreshHold_' p' = threadSizeThreshHold_' p
     \<and> initThreadSize_' p' = initThreadSize_' p
     \<and> taskQue_' p' = taskQue_' p"
  by (cases v; cases d)
     (auto simp: dtor_step_of_def dtor_step_v1_def dtor_step_v2_def Let_def split: if_splits)

lemma sys_step_bounds:
  assumes "sys_step v exec ev s = Some s'" and "ev \<noteq> Ev_start"
  shows "threadSizeThreshHold_' (pool s') = threadSizeThreshHold_' (pool s)
     \<and> initThreadSize_' (pool s') = initThreadSize_' (pool s)
     \<and> (curThreadNum_' (pool s) \<le>s threadSizeThreshHold_' (pool s)
          \<longrightarrow> curThreadNum_' (pool s') \<le>s threadSizeThreshHold_' (pool s))
     \<and> (initThreadSize_' (pool s) \<le>s curThreadNum_' (pool s)
          \<longrightarrow> initThreadSize_' (pool s) \<le>s curThreadNum_' (pool s'))"
proof (cases ev)
  case Ev_start
  with assms show ?thesis by simp
next
  case (Ev_submit t)
  with assms show ?thesis
    by (auto simp: sys_step_def split: if_splits prod.splits dest!: submitTask_bounds)
next
  case (Ev_thread k st now)
  with assms show ?thesis
    by (auto simp: sys_step_def split: if_splits option.splits dest!: threadFunc_step_bounds)
next
  case Ev_dtor
  with assms show ?thesis
    by (auto simp: sys_step_def split: if_splits option.splits dest!: dtor_step_fields)
next
  case (Ev_env f)
  with assms show ?thesis
    by (auto simp: sys_step_def split: if_splits)
qed

lemma run_events_bounds:
  "run_events v exec evs s = Some s' \<Longrightarrow> Ev_start \<notin> set evs \<Longrightarrow>
     threadSizeThreshHold_' (pool s') = threadSizeThreshHold_' (pool s)
     \<and> initThreadSize_' (pool s') = initThreadSize_' (pool s)
     \<and> (curThreadNum_' (pool s) \<le>s threadSizeThreshHold_' (pool s)
          \<longrightarrow> curThreadNum_' (pool s') \<le>s threadSizeThreshHold_' (pool s))
     \<and> (initThreadSize_' (pool s) \<le>s curThreadNum_' (pool s)
          \<longrightarrow> initThreadSize_' (pool s) \<le>s curThreadNum_' (pool s'))"
proof (induction evs arbitrary: s)
  case Nil
  then show ?case by simp
next
  case (Cons ev evs)
  from Cons.prems obtain s1 where s1: "sys_step v exec ev s = Some s1"
    and r: "run_events v exec evs s1 = Some s'"
    by (auto split: option.splits)
  from Cons.prems have ne: "ev \<noteq> Ev_start" and rest: "Ev_start \<notin> set evs" by auto
  from sys_step_bounds[OF s1 ne] Cons.IH[OF r rest] show ?case by auto
qed

lemma size_t_of_nonneg: "0 \<le>s x \<Longrightarrow> size_t_of_int x = nat (sint x)"
  unfolding size_t_of_int_def word_sle_eq
  using sint_lt[of x] by simp

lemma taskNum_succ:
  assumes cap: "0 <s (c::cint)" and room: "n < size_t_of_int c" and cnt: "sint (k::cint) = int n"
  shows "sint (k + 1) = int n + 1"
proof -
  have "0 \<le>s c" using cap by (simp add: word_sless_alt word_sle_eq)
  then have "size_t_of_int c = nat (sint c)" by (rule size_t_of_nonneg)
  with room cnt have "k <s c" by (simp add: word_sless_alt)
  then show ?thesis using cnt by (simp add: sint_succ)
qed

text \<open>
  In ThreadPool2.0 the test of the queue against the idle count converts
  \<open>idleThreadNum_\<close> to \<open>size_t\<close>: with the count at \<open>-1\<close> (a worker started by \<open>start()\<close>
  that took a task before \<open>start()\<close> counted it) nothing is larger, and a cached pool
  with room to grow does not grow. 1.0 compares two \<open>int\<close>s and grows.
\<close>

lemma submitTask_negative_idle_count:
  "snd (snd (snd (submitTask_v2 (7::nat)
      (1, (ThreadPool_v2 MODE_CACHED 1 2 4)\<lparr>idleThreadNum_' := - 1\<rparr>)))) = None
   \<and> snd (snd (snd (submitTask_v1 (7::nat)
      (1, (ThreadPool_v1 1 2 4 MODE_CACHED True)\<lparr>idleThreadNum_' := - 1\<rparr>)))) = Some 1"
  by (simp add: submitTask_v2_def ThreadPool_v2_def submitTask_v1_def ThreadPool_v1_def
      size_t_of_int_def Let_def word_sless_alt spawn_thread_def Thread_ctor_def
      threadMap_emplace_at_def threadMap_at_def threadMap_emplace_def Thread_getId_def
      Thread_start_def)

text \<open>
  Claim C6. In cached mode a submission spawns a new worker exactly when the queue is
  longer than the idle count and the thread count is below the maximum, and is skipped
  otherwise, so flooding submissions never drive the thread count above the maximum.

  For a cached pool with a positive queue capacity, room in the queue, an idle count
  that is not negative and (for 1.0, which tests its own \<open>taskNum_\<close>) a task count equal
  to the queue's length, \<open>submitTask\<close> of either version accepts the task and starts a
  thread if and only if the queue with the new task is longer than the idle count and
  \<open>curThreadNum_ < threadSizeThreshHold_\<close>; the thread count goes up by one if it does
  and stays otherwise. Along every run of submissions, thread steps and destructor
  steps, a thread count that is at most the maximum stays so. A fixed pool starts no
  thread on submission.
\<close>

theorem cached_submit_spawns_iff_backlog_and_headroom:
  "(poolMode_' p = MODE_CACHED \<longrightarrow> 0 <s taskQueMaxThreshHold_' p \<longrightarrow>
    length (taskQue_' p) < size_t_of_int (taskQueMaxThreshHold_' p) \<longrightarrow>
    0 \<le>s idleThreadNum_' p \<longrightarrow> sint (taskNum_' p) = int (length (taskQue_' p)) \<longrightarrow>
      (case submitTask_of v t (g, p) of (ok, g', p', l) \<Rightarrow>
         ok \<and> taskQue_' p' = taskQue_' p @ [t]
         \<and> ((\<exists>i. l = Some i) \<longleftrightarrow>
              sint (idleThreadNum_' p) < int (length (taskQue_' p'))
              \<and> curThreadNum_' p <s threadSizeThreshHold_' p)
         \<and> curThreadNum_' p' = (if l = None then curThreadNum_' p else curThreadNum_' p + 1)))
   \<and> (run_events v exec evs s = Some s' \<longrightarrow> Ev_start \<notin> set evs \<longrightarrow>
        curThreadNum_' (pool s) \<le>s threadSizeThreshHold_' (pool s) \<longrightarrow>
        curThreadNum_' (pool s') \<le>s threadSizeThreshHold_' (pool s'))
   \<and> (poolMode_' p = MODE_FIXED \<longrightarrow> snd (snd (snd (submitTask_of v t (g, p)))) = None)"
proof (intro conjI impI)
  assume cached: "poolMode_' p = MODE_CACHED"
    and cap: "0 <s taskQueMaxThreshHold_' p"
    and room: "length (taskQue_' p) < size_t_of_int (taskQueMaxThreshHold_' p)"
    and idle: "0 \<le>s idleThreadNum_' p"
    and cnt: "sint (taskNum_' p) = int (length (taskQue_' p))"
  have n: "sint (taskNum_' p + 1) = int (length (taskQue_' p)) + 1"
    by (rule taskNum_succ[OF cap room cnt])
  have i: "size_t_of_int (idleThreadNum_' p) = nat (sint (idleThreadNum_' p))"
    by (rule size_t_of_nonneg[OF idle])
  have i0: "0 \<le> sint (idleThreadNum_' p)" using idle by (simp add: word_sle_eq)
  show "case submitTask_of v t (g, p) of (ok, g', p', l) \<Rightarrow>
         ok \<and> taskQue_' p' = taskQue_' p @ [t]
         \<and> ((\<exists>i. l = Some i) \<longleftrightarrow>
              sint (idleThreadNum_' p) < int (length (taskQue_' p'))
              \<and> curThreadNum_' p <s threadSizeThreshHold_' p)
         \<and> curThreadNum_' p' = (if l = None then curThreadNum_' p else curThreadNum_' p + 1)"
  proof (cases v)
    case V1
    show ?thesis
      using cached room n
      by (auto simp: V1 submitTask_of_def submitTask_v1_def Let_def word_sless_alt[of "idleThreadNum_' p"]
          split: prod.splits dest!: spawn_thread_fields)
  next
    case V2
    show ?thesis
      using cached room i i0
      by (auto simp: V2 submitTask_of_def submitTask_v2_def Let_def
          split: prod.splits dest!: spawn_thread_fields)
  qed
next
  assume "run_events v exec evs s = Some s'" "Ev_start \<notin> set evs"
    "curThreadNum_' (pool s) \<le>s threadSizeThreshHold_' (pool s)"
  then show "curThreadNum_' (pool s') \<le>s threadSizeThreshHold_' (pool s')"
    using run_events_bounds[of v exec evs s s'] by simp
next
  assume "poolMode_' p = MODE_FIXED"
  then show "snd (snd (snd (submitTask_of v t (g, p)))) = None"
    by (cases v) (simp_all add: submitTask_of_def submitTask_v1_def submitTask_v2_def Let_def)
qed

theorem cached_submit_spawns_iff_backlog_and_headroom_witness:
  "poolMode_' (ThreadPool_v2 MODE_CACHED 1 2 4 :: nat ThreadPool) = MODE_CACHED
   \<and> 0 <s taskQueMaxThreshHold_' (ThreadPool_v2 MODE_CACHED 1 2 4 :: nat ThreadPool)
   \<and> length (taskQue_' (ThreadPool_v2 MODE_CACHED 1 2 4 :: nat ThreadPool))
       < size_t_of_int (taskQueMaxThreshHold_' (ThreadPool_v2 MODE_CACHED 1 2 4 :: nat ThreadPool))
   \<and> 0 \<le>s idleThreadNum_' (ThreadPool_v2 MODE_CACHED 1 2 4 :: nat ThreadPool)
   \<and> (case submitTask_of V2 (7::nat) (0, ThreadPool_v2 MODE_CACHED 1 2 4) of
        (ok, g', p', l) \<Rightarrow>
          ok \<and> taskQue_' p' = taskQue_' (ThreadPool_v2 MODE_CACHED 1 2 4) @ [7]
          \<and> ((\<exists>i. l = Some i) \<longleftrightarrow>
               sint (idleThreadNum_' (ThreadPool_v2 MODE_CACHED 1 2 4 :: nat ThreadPool))
                 < int (length (taskQue_' p'))
               \<and> curThreadNum_' (ThreadPool_v2 MODE_CACHED 1 2 4 :: nat ThreadPool)
                   <s threadSizeThreshHold_' (ThreadPool_v2 MODE_CACHED 1 2 4 :: nat ThreadPool))
          \<and> curThreadNum_' p'
              = (if l = None then curThreadNum_' (ThreadPool_v2 MODE_CACHED 1 2 4 :: nat ThreadPool)
                 else curThreadNum_' (ThreadPool_v2 MODE_CACHED 1 2 4 :: nat ThreadPool) + 1))
   \<and> snd (snd (snd (submitTask_of V2 (7::nat) (0, ThreadPool_v2 MODE_CACHED 1 2 4)))) = Some 0
   \<and> (\<exists>s'. run_events V2 packaged_task_invoke
              [Ev_submit 1, Ev_submit 2, Ev_submit 3, Ev_submit 4, Ev_submit 5]
              (initial_system (ThreadPool_v2 MODE_CACHED 1 2 4) 0
                 (Map.empty :: (string, int) store2)) = Some s'
          \<and> accepted s' = [1, 2, 3, 4] \<and> curThreadNum_' (pool s') = 2
          \<and> curThreadNum_' (pool s') \<le>s threadSizeThreshHold_' (pool s'))"
proof -
  let ?P = "ThreadPool_v2 MODE_CACHED 1 2 4 :: nat ThreadPool"
  let ?s = "initial_system ?P 0 (Map.empty :: (string, int) store2)
              :: (string, nat, (string, int) store2) system"
  let ?evs = "[Ev_submit 1, Ev_submit 2, Ev_submit 3, Ev_submit 4, Ev_submit 5]
              :: (nat, (string, int) store2) event list"
  have h1: "poolMode_' ?P = MODE_CACHED" by (simp add: ThreadPool_v2_def)
  have h2: "0 <s taskQueMaxThreshHold_' ?P" by (simp add: ThreadPool_v2_def word_sless_alt)
  have h3: "length (taskQue_' ?P) < size_t_of_int (taskQueMaxThreshHold_' ?P)"
    by (simp add: ThreadPool_v2_def size_t_of_int_def)
  have h4: "0 \<le>s idleThreadNum_' ?P" by (simp add: ThreadPool_v2_def)
  have h5: "sint (taskNum_' ?P) = int (length (taskQue_' ?P))" by (simp add: ThreadPool_v2_def)
  note c1 = cached_submit_spawns_iff_backlog_and_headroom [where p = ?P and v = V2 and t = 7 and g = 0,
      THEN conjunct1, rule_format, OF h1 h2 h3 h4 h5]
  have c2: "snd (snd (snd (submitTask_of V2 (7::nat) (0, ?P)))) = Some 0"
    by code_simp
  have "map_option (\<lambda>s'. (accepted s', curThreadNum_' (pool s')))
          (run_events V2 packaged_task_invoke ?evs ?s) = Some ([1, 2, 3, 4], 2)"
    by code_simp
  then obtain s' where r: "run_events V2 packaged_task_invoke ?evs ?s = Some s'"
    and a: "accepted s' = [1, 2, 3, 4]" and c: "curThreadNum_' (pool s') = 2"
    by auto
  have "curThreadNum_' (pool ?s) \<le>s threadSizeThreshHold_' (pool ?s)"
    by (simp add: initial_system_def ThreadPool_v2_def word_sle_eq)
  with cached_submit_spawns_iff_backlog_and_headroom [where v = V2 and exec = packaged_task_invoke and evs = ?evs
      and s = ?s and s' = s', THEN conjunct2, THEN conjunct1] r
  have "curThreadNum_' (pool s') \<le>s threadSizeThreshHold_' (pool s')" by simp
  with r a c have e: "\<exists>s'. run_events V2 packaged_task_invoke ?evs ?s = Some s'
          \<and> accepted s' = [1, 2, 3, 4] \<and> curThreadNum_' (pool s') = 2
          \<and> curThreadNum_' (pool s') \<le>s threadSizeThreshHold_' (pool s')" by blast
  from h1 h2 h3 h4 c1 c2 e show ?thesis by (intro conjI)
qed

text \<open>
  Claim C7. In cached mode an idle worker retires (erasing its registry entry and
  counting \<open>curThreadNum_\<close> and \<open>idleThreadNum_\<close> down) only when its idle time has reached
  60 seconds and the thread count is above the initial count; so the thread count
  shrinks towards the initial count and never drops below it.

  A step of a thread ends in \<open>Exit_idle\<close> if and only if the thread was waiting in a
  cached pool, its \<open>wait_for\<close> timed out, at least 60 whole seconds have passed since
  \<open>lastTime\<close> (set when the thread started and when it last finished a task) and
  \<open>curThreadNum_ > initThreadSize_\<close>. That step erases the thread's entry, counts both
  counters down by one and leaves the thread count at or above the initial count; no
  other step of a thread changes the thread count. Along every run of submissions,
  thread steps and destructor steps, a thread count at or above the initial count
  stays so.
\<close>

theorem idle_worker_retires_only_above_initial_count:
  "(threadFunc_step exec st now (w, p, h) = Some (w', p', h') \<longrightarrow>
      (pc w' = Exit_idle \<longleftrightarrow>
         pc w = Waiting \<and> poolMode_' p = MODE_CACHED \<and> st = timeout
         \<and> 60 \<le> duration_cast_seconds (now - lastTime w)
         \<and> initThreadSize_' p <s curThreadNum_' p)
      \<and> (pc w' = Exit_idle \<longrightarrow>
           threadMap_' p' = threadMap_erase (threadid w) (threadMap_' p)
           \<and> curThreadNum_' p' = curThreadNum_' p - 1
           \<and> idleThreadNum_' p' = idleThreadNum_' p - 1
           \<and> initThreadSize_' p' \<le>s curThreadNum_' p')
      \<and> (pc w' \<noteq> Exit_idle \<longrightarrow> curThreadNum_' p' = curThreadNum_' p))
   \<and> (run_events v exec evs s = Some s' \<longrightarrow> Ev_start \<notin> set evs \<longrightarrow>
        initThreadSize_' (pool s) \<le>s curThreadNum_' (pool s) \<longrightarrow>
        initThreadSize_' (pool s') \<le>s curThreadNum_' (pool s'))"
proof (intro conjI impI)
  assume st: "threadFunc_step exec st now (w, p, h) = Some (w', p', h')"
  note c = threadFunc_step_cases[OF st]
  show "pc w' = Exit_idle \<longleftrightarrow>
         pc w = Waiting \<and> poolMode_' p = MODE_CACHED \<and> st = timeout
         \<and> 60 \<le> duration_cast_seconds (now - lastTime w)
         \<and> initThreadSize_' p <s curThreadNum_' p"
    using c by blast
  show "pc w' \<noteq> Exit_idle \<Longrightarrow> curThreadNum_' p' = curThreadNum_' p"
    using c by blast
  assume e: "pc w' = Exit_idle"
  show "threadMap_' p' = threadMap_erase (threadid w) (threadMap_' p)"
    "curThreadNum_' p' = curThreadNum_' p - 1" "idleThreadNum_' p' = idleThreadNum_' p - 1"
    using c e by blast+
  have "initThreadSize_' p <s curThreadNum_' p" using c e by blast
  then have "initThreadSize_' p \<le>s curThreadNum_' p - 1" by (rule sless_sle_pred)
  then show "initThreadSize_' p' \<le>s curThreadNum_' p'" using c e by simp
next
  assume "run_events v exec evs s = Some s'" "Ev_start \<notin> set evs"
    "initThreadSize_' (pool s) \<le>s curThreadNum_' (pool s)"
  then show "initThreadSize_' (pool s') \<le>s curThreadNum_' (pool s')"
    using run_events_bounds[of v exec evs s s'] by simp
qed

theorem idle_worker_retires_only_above_initial_count_witness:
  "threadFunc_step packaged_task_invoke timeout 61000000000
      (\<lparr>threadid = 1, pc = Waiting, lastTime = 1000000000\<rparr>,
       (ThreadPool_v2 MODE_CACHED 1 2 4)
         \<lparr>threadMap_' := [(0, \<lparr>threadId_' = 0\<rparr>), (1, \<lparr>threadId_' = 1\<rparr>)],
          curThreadNum_' := 2, idleThreadNum_' := 2, notEmpty_' := [0, 1],
          isPoolRunning_' := True\<rparr>,
       (Map.empty :: (string, int) store2))
     = Some (\<lparr>threadid = 1, pc = Exit_idle, lastTime = 1000000000\<rparr>,
             (ThreadPool_v2 MODE_CACHED 1 2 4 :: nat ThreadPool)
               \<lparr>threadMap_' := [(0, \<lparr>threadId_' = 0\<rparr>)],
                curThreadNum_' := 1, idleThreadNum_' := 1, notEmpty_' := [0],
                isPoolRunning_' := True\<rparr>,
             Map.empty)
   \<and> 60 \<le> duration_cast_seconds (61000000000 - 1000000000)
   \<and> (\<exists>s'. run_events V2 packaged_task_invoke
              [Ev_submit 5, Ev_submit 6,
               Ev_thread 0 no_timeout 0, Ev_thread 0 no_timeout 0,
               Ev_thread 1 no_timeout 0, Ev_thread 1 no_timeout 0,
               Ev_thread 0 no_timeout 0, Ev_thread 1 no_timeout 0,
               Ev_thread 0 no_timeout 1000000000, Ev_thread 1 no_timeout 1000000000,
               Ev_thread 0 no_timeout 0, Ev_thread 1 no_timeout 0,
               Ev_thread 1 timeout 61000000000, Ev_thread 0 timeout 62000000000]
              \<lparr>pool = (ThreadPool_v2 MODE_CACHED 1 2 4)
                        \<lparr>threadMap_' := [(0, \<lparr>threadId_' = 0\<rparr>)],
                         curThreadNum_' := 1, idleThreadNum_' := 1, isPoolRunning_' := True\<rparr>,
               generateId_' = 1, threads = [new_thread 0],
               heap = [5 \<mapsto> \<lparr>stored = Inr 50, state = Not_ready\<rparr>,
                       6 \<mapsto> \<lparr>stored = (Inr 60 :: string + int), state = Not_ready\<rparr>],
               dtor = Dtor_entry, aborted = False, accepted = [], completed = []\<rparr> = Some s'
          \<and> map pc (threads s') = [Waiting, Exit_idle]
          \<and> completed s' = [5, 6]
          \<and> curThreadNum_' (pool s') = 1
          \<and> initThreadSize_' (pool s') \<le>s curThreadNum_' (pool s'))"
proof -
  let ?W = "\<lparr>threadid = 1, pc = Waiting, lastTime = 1000000000\<rparr> :: (string, nat) worker"
  let ?P = "(ThreadPool_v2 MODE_CACHED 1 2 4)
         \<lparr>threadMap_' := [(0, \<lparr>threadId_' = 0\<rparr>), (1, \<lparr>threadId_' = 1\<rparr>)],
          curThreadNum_' := 2, idleThreadNum_' := 2, notEmpty_' := [0, 1],
          isPoolRunning_' := True\<rparr> :: nat ThreadPool"
  let ?W' = "\<lparr>threadid = 1, pc = Exit_idle, lastTime = 1000000000\<rparr> :: (string, nat) worker"
  let ?P' = "(ThreadPool_v2 MODE_CACHED 1 2 4 :: nat ThreadPool)
               \<lparr>threadMap_' := [(0, \<lparr>threadId_' = 0\<rparr>)],
                curThreadNum_' := 1, idleThreadNum_' := 1, notEmpty_' := [0],
                isPoolRunning_' := True\<rparr>"
  let ?H = "Map.empty :: (string, int) store2"
  let ?S = "\<lparr>pool = (ThreadPool_v2 MODE_CACHED 1 2 4)
                        \<lparr>threadMap_' := [(0, \<lparr>threadId_' = 0\<rparr>)],
                         curThreadNum_' := 1, idleThreadNum_' := 1, isPoolRunning_' := True\<rparr>,
               generateId_' = 1, threads = [new_thread 0],
               heap = [5 \<mapsto> \<lparr>stored = Inr 50, state = Not_ready\<rparr>,
                       6 \<mapsto> \<lparr>stored = (Inr 60 :: string + int), state = Not_ready\<rparr>],
               dtor = Dtor_entry, aborted = False, accepted = [], completed = []\<rparr>
            :: (string, nat, (string, int) store2) system"
  let ?evs = "[Ev_submit 5, Ev_submit 6,
               Ev_thread 0 no_timeout 0, Ev_thread 0 no_timeout 0,
               Ev_thread 1 no_timeout 0, Ev_thread 1 no_timeout 0,
               Ev_thread 0 no_timeout 0, Ev_thread 1 no_timeout 0,
               Ev_thread 0 no_timeout 1000000000, Ev_thread 1 no_timeout 1000000000,
               Ev_thread 0 no_timeout 0, Ev_thread 1 no_timeout 0,
               Ev_thread 1 timeout 61000000000, Ev_thread 0 timeout 62000000000]
             :: (nat, (string, int) store2) event list"
  have d: "60 \<le> duration_cast_seconds (61000000000 - 1000000000)"
    by (simp add: duration_cast_seconds_def signed_divide_int_def)
  have st: "threadFunc_step packaged_task_invoke timeout 61000000000 (?W, ?P, ?H)
              = Some (?W', ?P', ?H)"
    using d
    by (simp add: threadFunc_step_def after_wait_def ThreadPool_v2_def THREAD_MAX_IDLE_TIME_def
        threadMap_erase_def word_sless_alt)
  note t1 = idle_worker_retires_only_above_initial_count [where exec = packaged_task_invoke and st = timeout
      and now = 61000000000 and w = ?W and p = ?P and h = ?H and w' = ?W' and p' = ?P'
      and h' = ?H, THEN conjunct1, rule_format, OF st]
  have "map_option (\<lambda>s'. (map pc (threads s'), completed s', curThreadNum_' (pool s')))
          (run_events V2 packaged_task_invoke ?evs ?S) = Some ([Waiting, Exit_idle], [5, 6], 1)"
    by code_simp
  then obtain s' where r: "run_events V2 packaged_task_invoke ?evs ?S = Some s'"
    and a: "map pc (threads s') = [Waiting, Exit_idle]" and b: "completed s' = [5, 6]"
    and c: "curThreadNum_' (pool s') = 1"
    by auto
  have i: "initThreadSize_' (pool ?S) \<le>s curThreadNum_' (pool ?S)"
    by (simp add: ThreadPool_v2_def word_sle_eq)
  have n: "Ev_start \<notin> set ?evs" by simp
  from idle_worker_retires_only_above_initial_count [where v = V2 and exec = packaged_task_invoke and evs = ?evs
      and s = ?S and s' = s', THEN conjunct2, rule_format, OF r n i]
  have f: "initThreadSize_' (pool s') \<le>s curThreadNum_' (pool s')" .
  have e: "\<exists>s'. run_events V2 packaged_task_invoke ?evs ?S = Some s'
          \<and> map pc (threads s') = [Waiting, Exit_idle]
          \<and> completed s' = [5, 6]
          \<and> curThreadNum_' (pool s') = 1
          \<and> initThreadSize_' (pool s') \<le>s curThreadNum_' (pool s')"
    by (rule exI[of _ s']) (intro conjI r a b c f)
  from st d e show ?thesis by (intro conjI)
qed

section \<open>Where the tasks are\<close>

text \<open>What \<open>start()\<close> leaves alone, by induction along its two loops.\<close>

lemma start_create_body_frame:
  "start_create_body gp = (g', p') \<Longrightarrow>
     taskQue_' p' = taskQue_' (snd gp) \<and> poolMode_' p' = poolMode_' (snd gp)
     \<and> initThreadSize_' p' = initThreadSize_' (snd gp)
     \<and> curThreadNum_' p' = curThreadNum_' (snd gp)"
  by (auto simp: start_create_body_def split: prod.splits)

lemma start_create_frame:
  "start_create i gp = (g', p') \<Longrightarrow>
     taskQue_' p' = taskQue_' (snd gp) \<and> poolMode_' p' = poolMode_' (snd gp)
     \<and> initThreadSize_' p' = initThreadSize_' (snd gp)
     \<and> curThreadNum_' p' = curThreadNum_' (snd gp)"
proof (induction i gp rule: start_create.induct)
  case (1 i gp)
  show ?case
  proof (cases "i <s initThreadSize_' (snd gp)")
    case True
    obtain g1 p1 where b: "start_create_body gp = (g1, p1)" by (cases "start_create_body gp")
    from "1.prems" True have "start_create (i + 1) (start_create_body gp) = (g', p')"
      by (subst (asm) start_create.simps) simp
    from "1.IH"[OF True this] start_create_body_frame[OF b] b show ?thesis by simp
  next
    case False
    with "1.prems" show ?thesis by (subst (asm) start_create.simps) auto
  qed
qed

lemma start_launch_v1_frame:
  "start_launch_v1 i pl = (Inr (p', ls) :: 'x fault + 't ThreadPool \<times> cint list) \<Longrightarrow>
     taskQue_' p' = taskQue_' (fst pl) \<and> poolMode_' p' = poolMode_' (fst pl)
     \<and> initThreadSize_' p' = initThreadSize_' (fst pl)"
proof (induction i pl rule: start_launch_v1.induct)
  case (1 i pl)
  show ?case
  proof (cases "i <s initThreadSize_' (fst pl)")
    case True
    with "1.prems" obtain th where th: "threadMap_at i (threadMap_' (fst pl)) = Some th"
      by (subst (asm) start_launch_v1.simps) (auto split: option.splits)
    from "1.prems" True th
    have "start_launch_v1 (i + 1)
               ((fst pl)\<lparr>curThreadNum_' := curThreadNum_' (fst pl) + 1,
                         idleThreadNum_' := idleThreadNum_' (fst pl) + 1\<rparr>,
                snd pl @ [Thread_start th])
            = (Inr (p', ls) :: 'x fault + 't ThreadPool \<times> cint list)"
      by (subst (asm) start_launch_v1.simps) simp
    from "1.IH"[OF True th this] show ?thesis by simp
  next
    case False
    with "1.prems" show ?thesis by (subst (asm) start_launch_v1.simps) auto
  qed
qed

lemma start_launch_v2_frame:
  "start_launch_v2 i pl = (Inr (p', ls) :: 'x fault + 't ThreadPool \<times> cint list) \<Longrightarrow>
     taskQue_' p' = taskQue_' (fst pl) \<and> poolMode_' p' = poolMode_' (fst pl)
     \<and> initThreadSize_' p' = initThreadSize_' (fst pl)"
proof (induction i pl rule: start_launch_v2.induct)
  case (1 i pl)
  show ?case
  proof (cases "i <s initThreadSize_' (fst pl)")
    case True
    with "1.prems" obtain th where th: "threadMap_at i (threadMap_' (fst pl)) = Some th"
      by (subst (asm) start_launch_v2.simps) (auto split: option.splits)
    from "1.prems" True th
    have "start_launch_v2 (i + 1)
               ((fst pl)\<lparr>idleThreadNum_' := idleThreadNum_' (fst pl) + 1\<rparr>,
                snd pl @ [Thread_start th])
            = (Inr (p', ls) :: 'x fault + 't ThreadPool \<times> cint list)"
      by (subst (asm) start_launch_v2.simps) simp
    from "1.IH"[OF True th this] show ?thesis by simp
  next
    case False
    with "1.prems" show ?thesis by (subst (asm) start_launch_v2.simps) auto
  qed
qed

lemma start_frame:
  "start_of v (g, p) = Inr (g', p', ls) \<Longrightarrow>
     taskQue_' p' = taskQue_' p \<and> poolMode_' p' = poolMode_' p
     \<and> initThreadSize_' p' = initThreadSize_' p"
  apply (cases v)
   apply (auto simp: start_of_def start_v1_def start_v2_def split: prod.splits sum.splits
      dest!: start_create_frame start_launch_v1_frame start_launch_v2_frame)
  done


lemma in_flight_new_threads [simp]: "in_flight (ws @ map new_thread ls) = in_flight ws"
  by (induction ls) (auto simp: in_flight_def held_by_def new_thread_def)

lemma in_flight_update:
  "k < length ws \<Longrightarrow>
     mset (in_flight (ws[k := w])) + mset (held_by (ws ! k)) = mset (in_flight ws) + mset (held_by w)"
proof (induction ws arbitrary: k)
  case Nil
  then show ?case by simp
next
  case (Cons a ws)
  show ?case
  proof (cases k)
    case 0
    then show ?thesis by (simp add: in_flight_def)
  next
    case (Suc j)
    with Cons.prems have "j < length ws" by simp
    from Cons.IH[OF this] Suc show ?thesis by (simp add: in_flight_def)
  qed
qed

lemma in_flight_single:
  "length ws \<le> 1 \<Longrightarrow> k < length ws \<Longrightarrow>
     in_flight ws = held_by (ws ! k) \<and> in_flight (ws[k := w]) = held_by w"
  by (cases ws) (auto simp: in_flight_def)

lemma while_taskQue_empty_tasks:
  "while_taskQue_empty w p = (w', p') \<Longrightarrow> held_by w = [] \<Longrightarrow>
     held_by w' @ taskQue_' p' = taskQue_' p \<and> pc w' \<noteq> After_exec"
  by (cases "taskQue_' p")
     (auto simp: while_taskQue_empty_def held_by_def Let_def split: if_splits)

lemma after_wait_tasks:
  "after_wait st now w p = (w', p') \<Longrightarrow> held_by w = [] \<Longrightarrow>
     held_by w' @ taskQue_' p' = taskQue_' p \<and> pc w' \<noteq> After_exec"
  by (auto simp: after_wait_def Let_def held_by_def split: if_splits
      dest!: while_taskQue_empty_tasks[unfolded held_by_def])

lemma threadFunc_step_tasks:
  "threadFunc_step exec st now (w, p, h) = Some (w', p', h') \<Longrightarrow>
     finished (pc w) (pc w') @ held_by w' @ taskQue_' p' = held_by w @ taskQue_' p"
  apply (cases "pc w")
         apply (auto simp: threadFunc_step_def finished_def held_by_def
      split: prod.splits sum.splits
      dest!: while_taskQue_empty_tasks[unfolded held_by_def] after_wait_tasks[unfolded held_by_def])
  done

lemma submitTask_queue:
  "submitTask_of v t (g, p) = (ok, g', p', l) \<Longrightarrow>
     taskQue_' p' = taskQue_' p @ (if ok then [t] else [])"
  by (cases v)
     (auto simp: submitTask_of_def submitTask_v1_def submitTask_v2_def Let_def
       split: if_splits prod.splits dest!: spawn_thread_fields)


lemma sys_step_Ev_start:
  fixes s :: "('x, 't, 'h) system"
  assumes "sys_step v exec Ev_start s = Some s'"
  shows "s' = s\<lparr>aborted := True\<rparr>
     \<or> (\<exists>g p ls. start_of v (generateId_' s, pool s)
                     = (Inr (g, p, ls) :: 'x fault + cint \<times> 't ThreadPool \<times> cint list)
           \<and> s' = s\<lparr>pool := p, generateId_' := g, threads := threads s @ map new_thread ls\<rparr>)"
proof (cases "start_of v (generateId_' s, pool s) :: 'x fault + cint \<times> 't ThreadPool \<times> cint list")
  case (Inl f)
  with assms show ?thesis by (simp add: sys_step_def split: if_splits)
next
  case (Inr r)
  then obtain g p ls where "r = (g, p, ls)" by (cases r) auto
  with Inr assms show ?thesis by (auto simp: sys_step_def split: if_splits)
qed

lemma sys_step_Ev_submit:
  assumes "sys_step v exec (Ev_submit t) s = Some s'"
  shows "\<exists>ok g p l. submitTask_of v t (generateId_' s, pool s) = (ok, g, p, l)
           \<and> s' = s\<lparr>pool := p, generateId_' := g,
                      threads := threads s @ map new_thread (case l of None \<Rightarrow> [] | Some i \<Rightarrow> [i]),
                      accepted := accepted s @ (if ok then [t] else [])\<rparr>"
proof -
  obtain ok g p l where "submitTask_of v t (generateId_' s, pool s) = (ok, g, p, l)"
    by (cases "submitTask_of v t (generateId_' s, pool s)") auto
  with assms show ?thesis by (simp add: sys_step_def split: if_splits)
qed

lemma sys_step_Ev_thread:
  assumes "sys_step v exec (Ev_thread k st now) s = Some s'"
  shows "k < length (threads s) \<and>
     (\<exists>w p h. threadFunc_step exec st now (threads s ! k, pool s, heap s) = Some (w, p, h)
        \<and> s' = s\<lparr>pool := p, threads := (threads s)[k := w], heap := h,
                    aborted := is_Uncaught (pc w),
                    completed := completed s @ finished (pc (threads s ! k)) (pc w)\<rparr>)"
  using assms by (auto simp: sys_step_def split: if_splits option.splits)

lemma sys_step_Ev_dtor:
  assumes "sys_step v exec Ev_dtor s = Some s'"
  shows "\<exists>d p. dtor_step_of v (dtor s, pool s) = Some (d, p) \<and> s' = s\<lparr>pool := p, dtor := d\<rparr>"
  using assms by (auto simp: sys_step_def split: if_splits option.splits)

lemma sys_step_Ev_env:
  assumes "sys_step v exec (Ev_env f) s = Some s'"
  shows "s' = s\<lparr>heap := f (heap s)\<rparr>"
  using assms by (auto simp: sys_step_def split: if_splits)

lemma mset_balance:
  fixes q :: "'a multiset"
  assumes "q' + h' + f = q + h" and "n' + h = n + h'"
  shows "q + n = q' + n' + f"
proof -
  have "(q + n) + (h + h') = (q + h) + (h' + n)" by (simp add: ac_simps)
  also have "\<dots> = (q' + h' + f) + (n' + h)" using assms by (simp add: ac_simps)
  also have "\<dots> = (q' + n' + f) + (h + h')" by (simp add: ac_simps)
  finally show ?thesis by simp
qed

lemma sys_step_accounted:
  assumes step: "sys_step v exec ev s = Some s'" and inv: "accounted s"
  shows "accounted s'"
proof (cases ev)
  case Ev_start
  with sys_step_Ev_start[of v exec s s'] step
  consider "s' = s\<lparr>aborted := True\<rparr>"
    | g p ls where "start_of v (generateId_' s, pool s)
                     = (Inr (g, p, ls) :: 'a fault + cint \<times> 'b ThreadPool \<times> cint list)"
      "s' = s\<lparr>pool := p, generateId_' := g, threads := threads s @ map new_thread ls\<rparr>"
    by blast
  then show ?thesis
  proof cases
    case 1
    with inv show ?thesis by (simp add: accounted_def)
  next
    case 2
    from start_frame[OF 2(1)] inv show ?thesis by (simp add: 2(2) accounted_def)
  qed
next
  case (Ev_submit t)
  with sys_step_Ev_submit[of v exec t s s'] step
  obtain ok g p l where a: "submitTask_of v t (generateId_' s, pool s) = (ok, g, p, l)"
    and s': "s' = s\<lparr>pool := p, generateId_' := g,
                      threads := threads s @ map new_thread (case l of None \<Rightarrow> [] | Some i \<Rightarrow> [i]),
                      accepted := accepted s @ (if ok then [t] else [])\<rparr>"
    by blast
  from submitTask_queue[OF a] inv show ?thesis by (simp add: s' accounted_def)
next
  case (Ev_thread k st now)
  with sys_step_Ev_thread[of v exec k st now s s'] step
  obtain w p h where k: "k < length (threads s)"
    and st: "threadFunc_step exec st now (threads s ! k, pool s, heap s) = Some (w, p, h)"
    and s': "s' = s\<lparr>pool := p, threads := (threads s)[k := w], heap := h,
                    aborted := is_Uncaught (pc w),
                    completed := completed s @ finished (pc (threads s ! k)) (pc w)\<rparr>"
    by blast
  have a: "mset (taskQue_' p) + mset (held_by w) + mset (finished (pc (threads s ! k)) (pc w))
          = mset (taskQue_' (pool s)) + mset (held_by (threads s ! k))"
    using arg_cong[OF threadFunc_step_tasks[OF st], of mset] by (simp add: ac_simps)
  from inv have "mset (accepted s)
       = mset (completed s) + mset (in_flight (threads s)) + mset (taskQue_' (pool s))"
    by (simp add: accounted_def)
  with mset_balance[OF a in_flight_update[OF k, of w]]
  have "mset (accepted s)
      = mset (completed s) + mset (finished (pc (threads s ! k)) (pc w))
        + mset (in_flight ((threads s)[k := w])) + mset (taskQue_' p)"
    by (simp add: ac_simps)
  then show ?thesis by (simp add: s' accounted_def)
next
  case Ev_dtor
  with sys_step_Ev_dtor[of v exec s s'] step
  obtain d p where a: "dtor_step_of v (dtor s, pool s) = Some (d, p)"
    and s': "s' = s\<lparr>pool := p, dtor := d\<rparr>"
    by blast
  from dtor_step_fields[OF a] inv show ?thesis by (simp add: s' accounted_def)
next
  case (Ev_env f)
  with sys_step_Ev_env[of v exec f s s'] step inv show ?thesis by (simp add: accounted_def)
qed


lemma sys_step_threads_grow:
  assumes "sys_step v exec ev s = Some s'"
  shows "length (threads s) \<le> length (threads s')"
proof (cases ev)
  case Ev_start
  with sys_step_Ev_start[of v exec s s'] assms show ?thesis by auto
next
  case (Ev_submit t)
  with sys_step_Ev_submit[of v exec t s s'] assms show ?thesis by auto
next
  case (Ev_thread k st now)
  with sys_step_Ev_thread[of v exec k st now s s'] assms show ?thesis by auto
next
  case Ev_dtor
  with sys_step_Ev_dtor[of v exec s s'] assms show ?thesis by auto
next
  case (Ev_env f)
  with sys_step_Ev_env[of v exec f s s'] assms show ?thesis by auto
qed

lemma sys_step_in_order:
  assumes step: "sys_step v exec ev s = Some s'" and inv: "in_order s"
  shows "in_order s'"
proof (cases "length (threads s') \<le> 1")
  case False
  then show ?thesis by (simp add: in_order_def)
next
  case True
  with sys_step_threads_grow[OF step] have one: "length (threads s) \<le> 1" by simp
  with inv have eq: "accepted s = completed s @ in_flight (threads s) @ taskQue_' (pool s)"
    by (simp add: in_order_def)
  show ?thesis
  proof (cases ev)
    case Ev_start
    with sys_step_Ev_start[of v exec s s'] step
    consider "s' = s\<lparr>aborted := True\<rparr>"
      | g p ls where "start_of v (generateId_' s, pool s)
                       = (Inr (g, p, ls) :: 'a fault + cint \<times> 'b ThreadPool \<times> cint list)"
        "s' = s\<lparr>pool := p, generateId_' := g, threads := threads s @ map new_thread ls\<rparr>"
      by blast
    then show ?thesis
    proof cases
      case 1
      with eq show ?thesis by (simp add: in_order_def)
    next
      case 2
      from start_frame[OF 2(1)] eq show ?thesis by (simp add: 2(2) in_order_def)
    qed
  next
    case (Ev_submit t)
    with sys_step_Ev_submit[of v exec t s s'] step
    obtain ok g p l where a: "submitTask_of v t (generateId_' s, pool s) = (ok, g, p, l)"
      and s': "s' = s\<lparr>pool := p, generateId_' := g,
                        threads := threads s @ map new_thread (case l of None \<Rightarrow> [] | Some i \<Rightarrow> [i]),
                        accepted := accepted s @ (if ok then [t] else [])\<rparr>"
      by blast
    from submitTask_queue[OF a] eq show ?thesis by (simp add: s' in_order_def)
  next
    case (Ev_thread k st now)
    with sys_step_Ev_thread[of v exec k st now s s'] step
    obtain w p h where k: "k < length (threads s)"
      and st: "threadFunc_step exec st now (threads s ! k, pool s, heap s) = Some (w, p, h)"
      and s': "s' = s\<lparr>pool := p, threads := (threads s)[k := w], heap := h,
                      aborted := is_Uncaught (pc w),
                      completed := completed s @ finished (pc (threads s ! k)) (pc w)\<rparr>"
      by blast
    from in_flight_single[OF one k, of w] threadFunc_step_tasks[OF st] eq
    show ?thesis by (simp add: s' in_order_def)
  next
    case Ev_dtor
    with sys_step_Ev_dtor[of v exec s s'] step
    obtain d p where a: "dtor_step_of v (dtor s, pool s) = Some (d, p)"
      and s': "s' = s\<lparr>pool := p, dtor := d\<rparr>"
      by blast
    from dtor_step_fields[OF a] eq show ?thesis by (simp add: s' in_order_def)
  next
    case (Ev_env f)
    with sys_step_Ev_env[of v exec f s s'] step eq show ?thesis by (simp add: in_order_def)
  qed
qed

lemma run_events_invariants:
  "run_events v exec evs s = Some s' \<Longrightarrow> accounted s \<Longrightarrow> in_order s \<Longrightarrow>
     accounted s' \<and> in_order s'"
proof (induction evs arbitrary: s)
  case Nil
  then show ?case by simp
next
  case (Cons ev evs)
  from Cons.prems(1) obtain s1 where s1: "sys_step v exec ev s = Some s1"
    and r: "run_events v exec evs s1 = Some s'"
    by (auto split: option.splits)
  from Cons.IH[OF r sys_step_accounted[OF s1 Cons.prems(2)] sys_step_in_order[OF s1 Cons.prems(3)]]
  show ?case .
qed

lemma initial_system_invariants:
  "taskQue_' p = [] \<Longrightarrow> accounted (initial_system p g h) \<and> in_order (initial_system p g h)"
  by (simp add: accounted_def in_order_def initial_system_def in_flight_def)

lemma in_flight_exited: "list_all exited ws \<Longrightarrow> in_flight ws = []"
  by (induction ws) (auto simp: in_flight_def held_by_def exited_def)

lemma while_taskQue_empty_shutdown:
  "while_taskQue_empty w p = (w', p') \<Longrightarrow> pc w' = Exit_shutdown \<Longrightarrow>
     taskQue_' p = [] \<and> \<not> isPoolRunning_' p
     \<and> p' = p\<lparr>threadMap_' := threadMap_erase (threadid w) (threadMap_' p)\<rparr>"
  by (auto simp: while_taskQue_empty_def Let_def split: if_splits)

lemma after_wait_shutdown:
  "after_wait st now w p = (w', p') \<Longrightarrow> pc w' = Exit_shutdown \<Longrightarrow>
     taskQue_' p = [] \<and> \<not> isPoolRunning_' p \<and> taskQue_' p' = []
     \<and> threadMap_' p' = threadMap_erase (threadid w) (threadMap_' p)"
  by (auto simp: after_wait_def Let_def split: if_splits dest!: while_taskQue_empty_shutdown)

lemma threadFunc_step_shutdown:
  "threadFunc_step exec st now (w, p, h) = Some (w', p', h') \<Longrightarrow> pc w' = Exit_shutdown \<Longrightarrow>
     (pc w = Top \<or> pc w = Waiting) \<and> taskQue_' p = [] \<and> \<not> isPoolRunning_' p
     \<and> taskQue_' p' = [] \<and> threadMap_' p' = threadMap_erase (threadid w) (threadMap_' p)"
  apply (cases "pc w")
         apply (auto simp: threadFunc_step_def split: prod.splits sum.splits
      dest!: while_taskQue_empty_shutdown after_wait_shutdown)
  done


lemma start_launch_v1_count:
  "start_launch_v1 i pl = (Inr (p', ls) :: 'x fault + 't ThreadPool \<times> cint list) \<Longrightarrow>
     length ls = length (snd pl) + nat (sint (initThreadSize_' (fst pl)) - sint i)"
proof (induction i pl rule: start_launch_v1.induct)
  case (1 i pl)
  show ?case
  proof (cases "i <s initThreadSize_' (fst pl)")
    case True
    with "1.prems" obtain th where th: "threadMap_at i (threadMap_' (fst pl)) = Some th"
      by (subst (asm) start_launch_v1.simps) (auto split: option.splits)
    from "1.prems" True th
    have "start_launch_v1 (i + 1)
               ((fst pl)\<lparr>curThreadNum_' := curThreadNum_' (fst pl) + 1,
                         idleThreadNum_' := idleThreadNum_' (fst pl) + 1\<rparr>,
                snd pl @ [Thread_start th])
            = (Inr (p', ls) :: 'x fault + 't ThreadPool \<times> cint list)"
      by (subst (asm) start_launch_v1.simps) simp
    from "1.IH"[OF True th this] True show ?thesis
      by (simp add: sint_succ) (simp add: word_sless_alt)
  next
    case False
    with "1.prems" show ?thesis
      by (subst (asm) start_launch_v1.simps) (auto simp: word_sless_alt)
  qed
qed

lemma start_launch_v2_count:
  "start_launch_v2 i pl = (Inr (p', ls) :: 'x fault + 't ThreadPool \<times> cint list) \<Longrightarrow>
     length ls = length (snd pl) + nat (sint (initThreadSize_' (fst pl)) - sint i)"
proof (induction i pl rule: start_launch_v2.induct)
  case (1 i pl)
  show ?case
  proof (cases "i <s initThreadSize_' (fst pl)")
    case True
    with "1.prems" obtain th where th: "threadMap_at i (threadMap_' (fst pl)) = Some th"
      by (subst (asm) start_launch_v2.simps) (auto split: option.splits)
    from "1.prems" True th
    have "start_launch_v2 (i + 1)
               ((fst pl)\<lparr>idleThreadNum_' := idleThreadNum_' (fst pl) + 1\<rparr>,
                snd pl @ [Thread_start th])
            = (Inr (p', ls) :: 'x fault + 't ThreadPool \<times> cint list)"
      by (subst (asm) start_launch_v2.simps) simp
    from "1.IH"[OF True th this] True show ?thesis
      by (simp add: sint_succ) (simp add: word_sless_alt)
  next
    case False
    with "1.prems" show ?thesis
      by (subst (asm) start_launch_v2.simps) (auto simp: word_sless_alt)
  qed
qed

text \<open>\<open>start()\<close> starts as many threads as \<open>initThreadSize_\<close> says.\<close>

lemma start_count:
  assumes "start_of v (g, p) = (Inr (g', p', ls) :: 'x fault + cint \<times> 't ThreadPool \<times> cint list)"
  shows "length ls = nat (sint (initThreadSize_' p))"
proof (cases v)
  case V1
  obtain g1 p1 where c: "start_create 0 (g, p\<lparr>isPoolRunning_' := True\<rparr>) = (g1, p1)"
    by (cases "start_create 0 (g, p\<lparr>isPoolRunning_' := True\<rparr>)")
  with assms V1 have "start_launch_v1 0 (p1, []) = (Inr (p', ls) :: 'x fault + 't ThreadPool \<times> cint list)"
    by (auto simp: start_of_def start_v1_def split: sum.splits)
  from start_launch_v1_count[OF this] start_create_frame[OF c] show ?thesis by simp
next
  case V2
  obtain g1 p1 where c: "start_create 0
      (g, p\<lparr>isPoolRunning_' := True, curThreadNum_' := initThreadSize_' p\<rparr>) = (g1, p1)"
    by (cases "start_create 0 (g, p\<lparr>isPoolRunning_' := True, curThreadNum_' := initThreadSize_' p\<rparr>)")
  with assms V2 have "start_launch_v2 0 (p1, []) = (Inr (p', ls) :: 'x fault + 't ThreadPool \<times> cint list)"
    by (auto simp: start_of_def start_v2_def split: sum.splits)
  from start_launch_v2_count[OF this] start_create_frame[OF c] show ?thesis by simp
qed

lemma submitTask_fixed:
  "submitTask_of v t (g, p) = (ok, g', p', l) \<Longrightarrow> poolMode_' p = MODE_FIXED \<Longrightarrow>
     l = None \<and> poolMode_' p' = MODE_FIXED \<and> initThreadSize_' p' = initThreadSize_' p"
  by (cases v)
     (auto simp: submitTask_of_def submitTask_v1_def submitTask_v2_def Let_def split: if_splits)

lemma while_taskQue_empty_mode:
  "while_taskQue_empty w p = (w', p') \<Longrightarrow> poolMode_' p' = poolMode_' p"
  by (auto simp: while_taskQue_empty_def Let_def split: if_splits)

lemma after_wait_mode:
  "after_wait st now w p = (w', p') \<Longrightarrow> poolMode_' p' = poolMode_' p"
  by (auto simp: after_wait_def Let_def split: if_splits dest!: while_taskQue_empty_mode)

lemma threadFunc_step_mode:
  "threadFunc_step exec st now (w, p, h) = Some (w', p', h') \<Longrightarrow> poolMode_' p' = poolMode_' p"
  apply (cases "pc w")
         apply (auto simp: threadFunc_step_def split: prod.splits sum.splits
      dest!: while_taskQue_empty_mode after_wait_mode)
  done

lemma dtor_step_mode:
  "dtor_step_of v (d, p) = Some (d', p') \<Longrightarrow> poolMode_' p' = poolMode_' p"
  by (cases v; cases d)
     (auto simp: dtor_step_of_def dtor_step_v1_def dtor_step_v2_def Let_def split: if_splits)

lemma sys_step_fixed_single:
  assumes step: "sys_step v exec ev s = Some s'"
    and m: "poolMode_' (pool s) = MODE_FIXED" and i: "initThreadSize_' (pool s) = 1"
  shows "poolMode_' (pool s') = MODE_FIXED \<and> initThreadSize_' (pool s') = 1
     \<and> length (threads s') \<le> length (threads s) + count_list [ev] Ev_start"
proof (cases ev)
  case Ev_start
  with sys_step_Ev_start[of v exec s s'] step
  consider "s' = s\<lparr>aborted := True\<rparr>"
    | g p ls where "start_of v (generateId_' s, pool s)
                     = (Inr (g, p, ls) :: 'a fault + cint \<times> 'b ThreadPool \<times> cint list)"
      "s' = s\<lparr>pool := p, generateId_' := g, threads := threads s @ map new_thread ls\<rparr>"
    by blast
  then show ?thesis
  proof cases
    case 1
    with m i show ?thesis by simp
  next
    case 2
    from start_frame[OF 2(1)] start_count[OF 2(1)] m i Ev_start show ?thesis by (simp add: 2(2))
  qed
next
  case (Ev_submit t)
  with sys_step_Ev_submit[of v exec t s s'] step
  obtain ok g p l where a: "submitTask_of v t (generateId_' s, pool s) = (ok, g, p, l)"
    and s': "s' = s\<lparr>pool := p, generateId_' := g,
                      threads := threads s @ map new_thread (case l of None \<Rightarrow> [] | Some i \<Rightarrow> [i]),
                      accepted := accepted s @ (if ok then [t] else [])\<rparr>"
    by blast
  from submitTask_fixed[OF a m] i show ?thesis by (simp add: s')
next
  case (Ev_thread k st now)
  with sys_step_Ev_thread[of v exec k st now s s'] step
  obtain w p h where k: "k < length (threads s)"
    and st: "threadFunc_step exec st now (threads s ! k, pool s, heap s) = Some (w, p, h)"
    and s': "s' = s\<lparr>pool := p, threads := (threads s)[k := w], heap := h,
                    aborted := is_Uncaught (pc w),
                    completed := completed s @ finished (pc (threads s ! k)) (pc w)\<rparr>"
    by blast
  from threadFunc_step_mode[OF st] threadFunc_step_cases[OF st] m i show ?thesis by (simp add: s')
next
  case Ev_dtor
  with sys_step_Ev_dtor[of v exec s s'] step
  obtain d p where a: "dtor_step_of v (dtor s, pool s) = Some (d, p)"
    and s': "s' = s\<lparr>pool := p, dtor := d\<rparr>"
    by blast
  from dtor_step_fields[OF a] dtor_step_mode[OF a] m i show ?thesis by (simp add: s')
next
  case (Ev_env f)
  with sys_step_Ev_env[of v exec f s s'] step m i show ?thesis by simp
qed

lemma run_events_fixed_single:
  "run_events v exec evs s = Some s' \<Longrightarrow> poolMode_' (pool s) = MODE_FIXED \<Longrightarrow>
   initThreadSize_' (pool s) = 1 \<Longrightarrow>
     length (threads s') \<le> length (threads s) + count_list evs Ev_start"
proof (induction evs arbitrary: s)
  case Nil
  then show ?case by simp
next
  case (Cons ev evs)
  from Cons.prems(1) obtain s1 where s1: "sys_step v exec ev s = Some s1"
    and r: "run_events v exec evs s1 = Some s'"
    by (auto split: option.splits)
  note a = sys_step_fixed_single[OF s1 Cons.prems(2) Cons.prems(3)]
  from Cons.IH[OF r] a show ?case by (auto split: if_splits)
qed

lemma run_events_snoc:
  "run_events v exec (evs @ [ev]) s = Some s' \<Longrightarrow>
     \<exists>s1. run_events v exec evs s = Some s1 \<and> sys_step v exec ev s1 = Some s'"
  by (induction evs arbitrary: s) (auto split: option.splits)

text \<open>
  Claim C8. Tasks are executed in the order in which they were queued: for tasks
  submitted one after the other to a fixed pool with a single worker, the order of
  completion is the order of submission.

  Take a fixed pool with \<open>initThreadSize_ = 1\<close> and an empty queue, no thread yet, and
  any run in which \<open>start()\<close> is called at most once. Then at most one thread exists,
  and in every state reached the tasks accepted so far are, in the order of their
  submission, the tasks completed so far in the order of their completion, followed by
  the task the worker has in hand, followed by the queue: the completed tasks are the
  first of the accepted ones, in the same order.
\<close>

theorem single_worker_fixed_pool_completes_in_submission_order:
  fixes s :: "('x, 't, 'h) system"
  assumes "poolMode_' p = MODE_FIXED" and "initThreadSize_' p = 1" and "taskQue_' p = []"
    and "count_list evs Ev_start \<le> 1"
    and "run_events v exec evs (initial_system p g h) = Some s"
  shows "length (threads s) \<le> 1
     \<and> accepted s = completed s @ in_flight (threads s) @ taskQue_' (pool s)
     \<and> prefix (completed s) (accepted s)"
proof -
  from run_events_fixed_single[OF assms(5)] assms(1,2,4)
  have one: "length (threads s) \<le> 1" by (simp add: initial_system_def)
  have "accounted (initial_system p g h :: ('x, 't, 'h) system)
      \<and> in_order (initial_system p g h :: ('x, 't, 'h) system)"
    using assms(3) by (rule initial_system_invariants)
  with run_events_invariants[OF assms(5)] have "in_order s" by simp
  with one have "accepted s = completed s @ in_flight (threads s) @ taskQue_' (pool s)"
    by (simp add: in_order_def)
  with one show ?thesis by (simp add: prefix_def)
qed

theorem single_worker_fixed_pool_completes_in_submission_order_witness:
  "poolMode_' (ThreadPool_v1 1 1024 4 MODE_FIXED False :: nat ThreadPool) = MODE_FIXED
   \<and> initThreadSize_' (ThreadPool_v1 1 1024 4 MODE_FIXED False :: nat ThreadPool) = 1
   \<and> taskQue_' (ThreadPool_v1 1 1024 4 MODE_FIXED False :: nat ThreadPool) = []
   \<and> (\<exists>s. run_events V1 Task_exec
             [Ev_start, Ev_submit 10, Ev_submit 11,
              Ev_thread 0 no_timeout 0, Ev_thread 0 no_timeout 0,
              Ev_submit 12,
              Ev_thread 0 no_timeout 0, Ev_thread 0 no_timeout 0, Ev_thread 0 no_timeout 0]
             (initial_system (ThreadPool_v1 1 1024 4 MODE_FIXED False) 0
                \<lparr>tasks = [10 \<mapsto> \<lparr>run = Inr (Any_of 1), result_' = None\<rparr>,
                          11 \<mapsto> \<lparr>run = Inr (Any_of 2), result_' = None\<rparr>,
                          12 \<mapsto> \<lparr>run = (Inr (Any_of 3) :: string + int Any), result_' = None\<rparr>],
                 results = Map.empty\<rparr>) = Some s
         \<and> accepted s = [10, 11, 12] \<and> completed s = [10]
         \<and> in_flight (threads s) = [11] \<and> taskQue_' (pool s) = [12]
         \<and> length (threads s) \<le> 1
         \<and> accepted s = completed s @ in_flight (threads s) @ taskQue_' (pool s)
         \<and> prefix (completed s) (accepted s))"
proof -
  let ?P = "ThreadPool_v1 1 1024 4 MODE_FIXED False :: nat ThreadPool"
  let ?H = "\<lparr>tasks = [10 \<mapsto> \<lparr>run = Inr (Any_of 1), result_' = None\<rparr>,
                      11 \<mapsto> \<lparr>run = Inr (Any_of 2), result_' = None\<rparr>,
                      12 \<mapsto> \<lparr>run = (Inr (Any_of 3) :: string + int Any), result_' = None\<rparr>],
             results = Map.empty\<rparr> :: (string, int) store"
  let ?evs = "[Ev_start, Ev_submit 10, Ev_submit 11,
              Ev_thread 0 no_timeout 0, Ev_thread 0 no_timeout 0,
              Ev_submit 12,
              Ev_thread 0 no_timeout 0, Ev_thread 0 no_timeout 0, Ev_thread 0 no_timeout 0]
             :: (nat, (string, int) store) event list"
  have h1: "poolMode_' ?P = MODE_FIXED" and h2: "initThreadSize_' ?P = 1"
    and h3: "taskQue_' ?P = []"
    by (simp_all add: ThreadPool_v1_def)
  have h4: "count_list ?evs Ev_start \<le> 1" by simp
  have "map_option (\<lambda>s. (accepted s, completed s, in_flight (threads s), taskQue_' (pool s)))
          (run_events V1 Task_exec ?evs (initial_system ?P 0 ?H)) = Some ([10, 11, 12], [10], [11], [12])"
    by code_simp
  then obtain s where r: "run_events V1 Task_exec ?evs (initial_system ?P 0 ?H) = Some s"
    and a: "accepted s = [10, 11, 12]" and c: "completed s = [10]"
    and f: "in_flight (threads s) = [11]" and q: "taskQue_' (pool s) = [12]"
    by auto
  note t = single_worker_fixed_pool_completes_in_submission_order [OF h1 h2 h3 h4 r]
  have "\<exists>s. run_events V1 Task_exec ?evs (initial_system ?P 0 ?H) = Some s
         \<and> accepted s = [10, 11, 12] \<and> completed s = [10]
         \<and> in_flight (threads s) = [11] \<and> taskQue_' (pool s) = [12]
         \<and> length (threads s) \<le> 1
         \<and> accepted s = completed s @ in_flight (threads s) @ taskQue_' (pool s)
         \<and> prefix (completed s) (accepted s)"
    by (rule exI[of _ s]) (intro conjI r a c f q t[THEN conjunct1]
        t[THEN conjunct2, THEN conjunct1] t[THEN conjunct2, THEN conjunct2])
  with h1 h2 h3 show ?thesis by (intro conjI)
qed

text \<open>
  Claim C5. A worker leaves its loop through the shutdown exit only after it has seen
  the queue empty, so every task accepted before shutdown is taken from the queue and
  executed before the last worker exits; no accepted task is lost.

  In every state reached from a pool with an empty queue and no thread, a step that
  takes thread \<open>k\<close> to \<open>Exit_shutdown\<close> starts with the queue empty and the running flag
  cleared, and leaves the queue empty. If after that step every thread has returned
  (this was the last worker), the completed tasks are exactly the accepted ones.
\<close>

theorem shutdown_exit_only_with_queue_drained:
  fixes s :: "('x, 't, 'h) system"
  assumes "taskQue_' p = []"
    and "run_events v exec evs (initial_system p g h) = Some s"
    and "sys_step v exec (Ev_thread k st now) s = Some s'"
    and "pc (threads s' ! k) = Exit_shutdown"
  shows "taskQue_' (pool s) = [] \<and> \<not> isPoolRunning_' (pool s) \<and> taskQue_' (pool s') = []
     \<and> (list_all exited (threads s') \<longrightarrow> mset (completed s') = mset (accepted s'))"
proof -
  from sys_step_Ev_thread[OF assms(3)]
  obtain w p1 h1 where k: "k < length (threads s)"
    and st: "threadFunc_step exec st now (threads s ! k, pool s, heap s) = Some (w, p1, h1)"
    and s': "s' = s\<lparr>pool := p1, threads := (threads s)[k := w], heap := h1,
                    aborted := is_Uncaught (pc w),
                    completed := completed s @ finished (pc (threads s ! k)) (pc w)\<rparr>"
    by blast
  from assms(4) k have "pc w = Exit_shutdown" by (simp add: s')
  from threadFunc_step_shutdown[OF st this]
  have q: "taskQue_' (pool s) = []" "\<not> isPoolRunning_' (pool s)" "taskQue_' (pool s') = []"
    by (simp_all add: s')
  have "accounted (initial_system p g h :: ('x, 't, 'h) system)
      \<and> in_order (initial_system p g h :: ('x, 't, 'h) system)"
    using assms(1) by (rule initial_system_invariants)
  with run_events_invariants[OF assms(2)] have "accounted s" by simp
  from sys_step_accounted[OF assms(3) this]
  have "mset (accepted s')
       = mset (completed s') + mset (in_flight (threads s')) + mset (taskQue_' (pool s'))"
    by (simp add: accounted_def)
  with q in_flight_exited[of "threads s'"]
  have "list_all exited (threads s') \<longrightarrow> mset (completed s') = mset (accepted s')" by simp
  with q show ?thesis by simp
qed

theorem shutdown_exit_only_with_queue_drained_witness:
  "taskQue_' (ThreadPool_v1 1 1024 4 MODE_FIXED False :: nat ThreadPool) = []
   \<and> (\<exists>s s'. run_events V1 Task_exec
             [Ev_start, Ev_submit 10, Ev_submit 11, Ev_dtor, Ev_dtor,
              Ev_thread 0 no_timeout 0, Ev_thread 0 no_timeout 0, Ev_thread 0 no_timeout 0,
              Ev_thread 0 no_timeout 0, Ev_thread 0 no_timeout 0, Ev_thread 0 no_timeout 0,
              Ev_thread 0 no_timeout 0]
             (initial_system (ThreadPool_v1 1 1024 4 MODE_FIXED False) 0
                \<lparr>tasks = [10 \<mapsto> \<lparr>run = Inr (Any_of 1), result_' = None\<rparr>,
                          11 \<mapsto> \<lparr>run = (Inr (Any_of 2) :: string + int Any), result_' = None\<rparr>],
                 results = Map.empty\<rparr>) = Some s
         \<and> sys_step V1 Task_exec (Ev_thread 0 no_timeout 0) s = Some s'
         \<and> pc (threads s' ! 0) = Exit_shutdown
         \<and> taskQue_' (pool s) = [] \<and> \<not> isPoolRunning_' (pool s)
         \<and> list_all exited (threads s')
         \<and> accepted s' = [10, 11]
         \<and> mset (completed s') = mset (accepted s'))"
proof -
  let ?P = "ThreadPool_v1 1 1024 4 MODE_FIXED False :: nat ThreadPool"
  let ?H = "\<lparr>tasks = [10 \<mapsto> \<lparr>run = Inr (Any_of 1), result_' = None\<rparr>,
                      11 \<mapsto> \<lparr>run = (Inr (Any_of 2) :: string + int Any), result_' = None\<rparr>],
             results = Map.empty\<rparr> :: (string, int) store"
  let ?evs = "[Ev_start, Ev_submit 10, Ev_submit 11, Ev_dtor, Ev_dtor,
              Ev_thread 0 no_timeout 0, Ev_thread 0 no_timeout 0, Ev_thread 0 no_timeout 0,
              Ev_thread 0 no_timeout 0, Ev_thread 0 no_timeout 0, Ev_thread 0 no_timeout 0,
              Ev_thread 0 no_timeout 0]
             :: (nat, (string, int) store) event list"
  let ?ev = "Ev_thread 0 no_timeout 0 :: (nat, (string, int) store) event"
  have h1: "taskQue_' ?P = []" by (simp add: ThreadPool_v1_def)
  have "map_option (\<lambda>s. (map pc (threads s), accepted s))
          (run_events V1 Task_exec (?evs @ [?ev]) (initial_system ?P 0 ?H))
        = Some ([Exit_shutdown], [10, 11])"
    by code_simp
  then obtain s' where r': "run_events V1 Task_exec (?evs @ [?ev]) (initial_system ?P 0 ?H) = Some s'"
    and pcs: "map pc (threads s') = [Exit_shutdown]" and a: "accepted s' = [10, 11]"
    by auto
  from run_events_snoc[OF r'] obtain s
    where r: "run_events V1 Task_exec ?evs (initial_system ?P 0 ?H) = Some s"
      and st: "sys_step V1 Task_exec ?ev s = Some s'"
    by blast
  from pcs obtain w where ws: "threads s' = [w]" and w: "pc w = Exit_shutdown"
    by (cases "threads s'") auto
  have e: "pc (threads s' ! 0) = Exit_shutdown" by (simp add: ws w)
  have x: "list_all exited (threads s')" by (simp add: ws w exited_def)
  note t = shutdown_exit_only_with_queue_drained [OF h1 r st e]
  from t x have m: "mset (completed s') = mset (accepted s')" by blast
  have "\<exists>s s'. run_events V1 Task_exec ?evs (initial_system ?P 0 ?H) = Some s
         \<and> sys_step V1 Task_exec ?ev s = Some s'
         \<and> pc (threads s' ! 0) = Exit_shutdown
         \<and> taskQue_' (pool s) = [] \<and> \<not> isPoolRunning_' (pool s)
         \<and> list_all exited (threads s')
         \<and> accepted s' = [10, 11]
         \<and> mset (completed s') = mset (accepted s')"
    by (rule exI[of _ s], rule exI[of _ s'])
       (intro conjI r st e x a m t[THEN conjunct1] t[THEN conjunct2, THEN conjunct1])
  with h1 show ?thesis by (intro conjI)
qed

section \<open>start() and the static id counter\<close>

text \<open>
  With the counter at the loop index, the first loop of \<open>start()\<close> registers the ids
  below \<open>initThreadSize_\<close> and the second loop finds every one of them.
\<close>

lemma sint_eqI: "sint (a::cint) = sint b \<Longrightarrow> a = b"
  by (rule signed_word_eqI)

lemma sless_succ_iff:
  assumes "(i::cint) <s n"
  shows "j <s i + 1 \<longleftrightarrow> j <s i \<or> j = i"
proof -
  have "sint (i + 1) = sint i + 1" by (rule sint_succ[OF assms])
  moreover have "j = i \<longleftrightarrow> sint j = sint i" by (auto intro: sint_eqI)
  ultimately show ?thesis by (simp add: word_sless_alt) arith
qed

lemma sle_succ: "(i::cint) <s n \<Longrightarrow> 0 \<le>s i \<Longrightarrow> 0 \<le>s i + 1"
  by (simp add: word_sle_eq sint_succ)

lemma registered_below_step:
  assumes "registered_below i m" and "i <s n" and "0 \<le>s i"
  shows "registered_below (i + 1) (threadMap_emplace i \<lparr>threadId_' = i\<rparr> m)"
proof -
  from assms(1) have none: "map_of m i = None"
    by (simp add: registered_below_def threadMap_at_def)
  show ?thesis
    unfolding registered_below_def
  proof
    fix j
    from assms(1) have m: "map_of m j = (if 0 \<le>s j \<and> j <s i then Some \<lparr>threadId_' = j\<rparr> else None)"
      by (simp add: registered_below_def threadMap_at_def)
    show "threadMap_at j (threadMap_emplace i \<lparr>threadId_' = i\<rparr> m)
            = (if 0 \<le>s j \<and> j <s i + 1 then Some \<lparr>threadId_' = j\<rparr> else None)"
      using none m assms(3) sless_succ_iff[OF assms(2), of j]
      by (auto simp: threadMap_at_def threadMap_emplace_def map_add_def split: option.splits)
  qed
qed

lemma start_create_registers:
  "fst gp = i \<Longrightarrow> 0 \<le>s i \<Longrightarrow> i \<le>s initThreadSize_' (snd gp) \<Longrightarrow>
   registered_below i (threadMap_' (snd gp)) \<Longrightarrow>
     fst (start_create i gp) = initThreadSize_' (snd gp)
     \<and> registered_below (initThreadSize_' (snd gp)) (threadMap_' (snd (start_create i gp)))"
proof (induction i gp rule: start_create.induct)
  case (1 i gp)
  show ?case
  proof (cases "i <s initThreadSize_' (snd gp)")
    case True
    have b: "start_create_body gp
        = (i + 1, (snd gp)\<lparr>threadMap_' := threadMap_emplace i \<lparr>threadId_' = i\<rparr> (threadMap_' (snd gp))\<rparr>)"
      using "1.prems"(1)
      by (cases gp) (simp add: start_create_body_def Thread_ctor_def Thread_getId_def)
    have "fst (start_create (i + 1) (start_create_body gp)) = initThreadSize_' (snd (start_create_body gp))
     \<and> registered_below (initThreadSize_' (snd (start_create_body gp)))
          (threadMap_' (snd (start_create (i + 1) (start_create_body gp))))"
    proof (rule "1.IH"[OF True])
      show "fst (start_create_body gp) = i + 1" by (simp add: b)
      show "0 \<le>s i + 1" by (rule sle_succ[OF True "1.prems"(2)])
      show "i + 1 \<le>s initThreadSize_' (snd (start_create_body gp))"
        using True by (simp add: b sless_succ_sle)
      show "registered_below (i + 1) (threadMap_' (snd (start_create_body gp)))"
        using registered_below_step[OF "1.prems"(4) True "1.prems"(2)] by (simp add: b)
    qed
    then show ?thesis
      using True by (subst (1 2) start_create.simps) (simp add: b)
  next
    case False
    with "1.prems"(3) have "i = initThreadSize_' (snd gp)"
      by (auto simp: word_sless_alt word_sle_eq intro: sint_eqI)
    with False "1.prems" show ?thesis
      by (subst (1 2) start_create.simps) simp
  qed
qed


lemma of_nat_nat_sint: "0 \<le>s (i::cint) \<Longrightarrow> (of_nat (nat (sint i)) :: cint) = i"
  by (simp add: word_sle_eq)

lemma upt_sint_succ:
  assumes "(i::cint) <s n" and "0 \<le>s i"
  shows "[nat (sint i)..<nat (sint n)] = nat (sint i) # [nat (sint (i + 1))..<nat (sint n)]"
proof -
  from assms have "nat (sint i) < nat (sint n)" by (simp add: word_sless_alt word_sle_eq)
  moreover from assms have "nat (sint (i + 1)) = Suc (nat (sint i))"
    by (simp add: sint_succ word_sle_eq nat_add_distrib)
  ultimately show ?thesis by (simp add: upt_conv_Cons)
qed

lemma start_launch_v1_finds:
  "0 \<le>s i \<Longrightarrow> i \<le>s initThreadSize_' (fst pl) \<Longrightarrow>
   registered_below (initThreadSize_' (fst pl)) (threadMap_' (fst pl)) \<Longrightarrow>
     \<exists>p'. start_launch_v1 i pl
            = (Inr (p', snd pl @ map of_nat [nat (sint i)..<nat (sint (initThreadSize_' (fst pl)))])
                :: 'x fault + 't ThreadPool \<times> cint list)
          \<and> threadMap_' p' = threadMap_' (fst pl)"
proof (induction i pl rule: start_launch_v1.induct)
  case (1 i pl)
  let ?n = "initThreadSize_' (fst pl)"
  show ?case
  proof (cases "i <s ?n")
    case True
    let ?th = "\<lparr>threadId_' = i\<rparr>"
    let ?pl = "((fst pl)\<lparr>curThreadNum_' := curThreadNum_' (fst pl) + 1,
                         idleThreadNum_' := idleThreadNum_' (fst pl) + 1\<rparr>,
                snd pl @ [Thread_start ?th])"
    from "1.prems"(3) True "1.prems"(1)
    have th: "threadMap_at i (threadMap_' (fst pl)) = Some ?th"
      by (simp add: registered_below_def)
    have "\<exists>p'. start_launch_v1 (i + 1) ?pl
            = (Inr (p', snd ?pl @ map of_nat [nat (sint (i + 1))..<nat (sint (initThreadSize_' (fst ?pl)))])
                :: 'x fault + 't ThreadPool \<times> cint list)
          \<and> threadMap_' p' = threadMap_' (fst ?pl)"
    proof (rule "1.IH"[OF True th])
      show "0 \<le>s i + 1" by (rule sle_succ[OF True "1.prems"(1)])
      show "i + 1 \<le>s initThreadSize_' (fst ?pl)" using True by (simp add: sless_succ_sle)
      show "registered_below (initThreadSize_' (fst ?pl)) (threadMap_' (fst ?pl))"
        using "1.prems"(3) by simp
    qed
    then show ?thesis
      using True th upt_sint_succ[OF True "1.prems"(1)] of_nat_nat_sint[OF "1.prems"(1)]
      by (subst start_launch_v1.simps) (simp add: Thread_start_def)
  next
    case False
    with "1.prems"(2) have "sint i = sint ?n" by (simp add: word_sless_alt word_sle_eq)
    with False show ?thesis
      by (subst start_launch_v1.simps) (cases pl, simp)
  qed
qed

lemma start_launch_v2_finds:
  "0 \<le>s i \<Longrightarrow> i \<le>s initThreadSize_' (fst pl) \<Longrightarrow>
   registered_below (initThreadSize_' (fst pl)) (threadMap_' (fst pl)) \<Longrightarrow>
     \<exists>p'. start_launch_v2 i pl
            = (Inr (p', snd pl @ map of_nat [nat (sint i)..<nat (sint (initThreadSize_' (fst pl)))])
                :: 'x fault + 't ThreadPool \<times> cint list)
          \<and> threadMap_' p' = threadMap_' (fst pl)"
proof (induction i pl rule: start_launch_v2.induct)
  case (1 i pl)
  let ?n = "initThreadSize_' (fst pl)"
  show ?case
  proof (cases "i <s ?n")
    case True
    let ?th = "\<lparr>threadId_' = i\<rparr>"
    let ?pl = "((fst pl)\<lparr>idleThreadNum_' := idleThreadNum_' (fst pl) + 1\<rparr>,
                snd pl @ [Thread_start ?th])"
    from "1.prems"(3) True "1.prems"(1)
    have th: "threadMap_at i (threadMap_' (fst pl)) = Some ?th"
      by (simp add: registered_below_def)
    have "\<exists>p'. start_launch_v2 (i + 1) ?pl
            = (Inr (p', snd ?pl @ map of_nat [nat (sint (i + 1))..<nat (sint (initThreadSize_' (fst ?pl)))])
                :: 'x fault + 't ThreadPool \<times> cint list)
          \<and> threadMap_' p' = threadMap_' (fst ?pl)"
    proof (rule "1.IH"[OF True th])
      show "0 \<le>s i + 1" by (rule sle_succ[OF True "1.prems"(1)])
      show "i + 1 \<le>s initThreadSize_' (fst ?pl)" using True by (simp add: sless_succ_sle)
      show "registered_below (initThreadSize_' (fst ?pl)) (threadMap_' (fst ?pl))"
        using "1.prems"(3) by simp
    qed
    then show ?thesis
      using True th upt_sint_succ[OF True "1.prems"(1)] of_nat_nat_sint[OF "1.prems"(1)]
      by (subst start_launch_v2.simps) (simp add: Thread_start_def)
  next
    case False
    with "1.prems"(2) have "sint i = sint ?n" by (simp add: word_sless_alt word_sle_eq)
    with False show ?thesis
      by (subst start_launch_v2.simps) (cases pl, simp)
  qed
qed

lemma registered_below_0: "registered_below 0 []"
  by (simp add: registered_below_def threadMap_at_def word_sless_alt word_sle_eq)


lemma unat_nonneg: "0 \<le>s (g::cint) \<Longrightarrow> unat g = nat (sint g)"
proof -
  assume "0 \<le>s g"
  then have s0: "0 \<le> sint g" by (simp add: word_sle_eq)
  then have "(of_nat (nat (sint g)) :: cint) = g" by simp
  then have "unat g = unat (of_nat (nat (sint g)) :: cint)" by simp
  also have "\<dots> = nat (sint g) mod 2 ^ 32" by (simp only: unat_of_nat) simp
  also have "\<dots> = nat (sint g)" using sint_lt[of g] s0 by simp
  finally show ?thesis .
qed

lemma start_create_misses_0:
  "1 \<le> unat (fst gp) \<Longrightarrow>
   unat (fst gp) + nat (sint (initThreadSize_' (snd gp)) - sint i) < 2 ^ 32 \<Longrightarrow>
   threadMap_at 0 (threadMap_' (snd gp)) = None \<Longrightarrow>
     threadMap_at 0 (threadMap_' (snd (start_create i gp))) = None"
proof (induction i gp rule: start_create.induct)
  case (1 i gp)
  show ?case
  proof (cases "i <s initThreadSize_' (snd gp)")
    case True
    obtain g p where gp: "gp = (g, p)" by (cases gp)
    have b: "start_create_body (g, p)
        = (g + 1, p\<lparr>threadMap_' := threadMap_emplace g \<lparr>threadId_' = g\<rparr> (threadMap_' p)\<rparr>)"
      by (simp add: start_create_body_def Thread_ctor_def Thread_getId_def)
    from True have r: "1 \<le> nat (sint (initThreadSize_' p) - sint i)"
      by (simp add: gp word_sless_alt)
    with "1.prems"(2) have "unat g + unat (1::cint) < 2 ^ 32" by (simp add: gp)
    then have u: "unat (g + 1) = unat g + 1"
      using unat_plus_if'[of g 1] by simp
    from "1.prems"(1) have g0: "g \<noteq> 0" by (auto simp: gp)
    have "threadMap_at 0 (threadMap_' (snd (start_create (i + 1) (start_create_body gp)))) = None"
    proof (rule "1.IH"[OF True])
      show "1 \<le> unat (fst (start_create_body gp))" by (simp add: gp b u)
      show "unat (fst (start_create_body gp))
              + nat (sint (initThreadSize_' (snd (start_create_body gp))) - sint (i + 1)) < 2 ^ 32"
        using "1.prems"(2) r True by (simp add: gp b u sint_succ)
      show "threadMap_at 0 (threadMap_' (snd (start_create_body gp))) = None"
        using "1.prems"(3) g0
        by (auto simp: gp b threadMap_at_def threadMap_emplace_def split: option.splits)
    qed
    then show ?thesis using True by (subst start_create.simps) simp
  next
    case False
    with "1.prems"(3) show ?thesis by (subst start_create.simps) simp
  qed
qed

text \<open>
  Claim C10. \<open>start()\<close> launches the initial workers by looking up the registry under
  the loop index \<open>0 .. initThreadSize_ - 1\<close>, while the ids under which it has just
  registered them come from one static counter that all pools share. So the lookups
  find the workers just registered only when the counter is 0; for a pool started
  later, \<open>start()\<close> looks up keys under which no worker is registered and dereferences
  an empty thread handle.

  Take a pool with an empty registry and a positive \<open>initThreadSize_\<close>, and a counter
  that has not wrapped (it starts at 0 and only counts up). With the counter at 0,
  \<open>start()\<close> of either version returns: the counter is then \<open>initThreadSize_\<close>, the
  registry holds exactly the ids below it and the threads started are those, in order.
  With the counter at anything else, the first lookup, \<open>threadMap_[0]\<close>, finds no entry
  and \<open>start()\<close> dereferences the null pointer that the lookup inserts.
\<close>

theorem start_finds_its_threads_only_from_counter_0:
  fixes p :: "'t ThreadPool"
  assumes "threadMap_' p = []" and "0 <s initThreadSize_' p" and "0 \<le>s g"
  shows "(g = 0 \<longrightarrow>
           (\<exists>p'. start_of v (g, p)
                   = (Inr (initThreadSize_' p, p', map of_nat [0..<nat (sint (initThreadSize_' p))])
                       :: 'x fault + cint \<times> 't ThreadPool \<times> cint list)
                \<and> registered_below (initThreadSize_' p) (threadMap_' p')))
     \<and> (g \<noteq> 0 \<longrightarrow>
           start_of v (g, p) = (Inl (Null_thread 0) :: 'x fault + cint \<times> 't ThreadPool \<times> cint list))"
proof (intro conjI impI)
  assume g0: "g = 0"
  let ?n = "initThreadSize_' p"
  from assms(2) have n0: "0 \<le>s ?n" by (simp add: word_sless_alt word_sle_eq)
  have z: "(0::cint) \<le>s 0" by simp
  show "\<exists>p'. start_of v (g, p)
                   = (Inr (?n, p', map of_nat [0..<nat (sint ?n)])
                       :: 'x fault + cint \<times> 't ThreadPool \<times> cint list)
                \<and> registered_below ?n (threadMap_' p')"
  proof (cases v)
    case V1
    let ?p0 = "p\<lparr>isPoolRunning_' := True\<rparr>"
    obtain g1 p1 where c: "start_create 0 (0, ?p0) = (g1, p1)" by (cases "start_create 0 (0, ?p0)")
    from start_create_registers[of "(0, ?p0)" 0] n0 assms(1) registered_below_0 c
    have g1: "g1 = ?n" and reg: "registered_below ?n (threadMap_' p1)" by simp_all
    from start_create_frame[OF c] have i1: "initThreadSize_' p1 = ?n" by simp
    from start_launch_v1_finds[of 0 "(p1, [])", where ?'x = 'x] n0 reg i1
    obtain p' where l: "start_launch_v1 0 (p1, [])
            = (Inr (p', map of_nat [0..<nat (sint ?n)]) :: 'x fault + 't ThreadPool \<times> cint list)"
      and m: "threadMap_' p' = threadMap_' p1"
      by auto
    show ?thesis
      using c l m reg by (simp add: V1 g0 g1 start_of_def start_v1_def)
  next
    case V2
    let ?p0 = "p\<lparr>isPoolRunning_' := True, curThreadNum_' := initThreadSize_' p\<rparr>"
    obtain g1 p1 where c: "start_create 0 (0, ?p0) = (g1, p1)" by (cases "start_create 0 (0, ?p0)")
    from start_create_registers[of "(0, ?p0)" 0] n0 assms(1) registered_below_0 c
    have g1: "g1 = ?n" and reg: "registered_below ?n (threadMap_' p1)" by simp_all
    from start_create_frame[OF c] have i1: "initThreadSize_' p1 = ?n" by simp
    from start_launch_v2_finds[of 0 "(p1, [])", where ?'x = 'x] n0 reg i1
    obtain p' where l: "start_launch_v2 0 (p1, [])
            = (Inr (p', map of_nat [0..<nat (sint ?n)]) :: 'x fault + 't ThreadPool \<times> cint list)"
      and m: "threadMap_' p' = threadMap_' p1"
      by auto
    show ?thesis
      using c l m reg by (simp add: V2 g0 g1 start_of_def start_v2_def)
  qed
next
  assume gn: "g \<noteq> 0"
  let ?n = "initThreadSize_' p"
  from assms(3) have ug: "unat g = nat (sint g)" by (rule unat_nonneg)
  from gn have u1: "1 \<le> unat g" using unat_gt_0[of g] by simp
  have u2: "unat g + nat (sint ?n - sint (0::cint)) < 2 ^ 32"
    using ug sint_lt[of g] sint_lt[of ?n] assms(3) by (simp add: word_sle_eq)
  have miss: "threadMap_at 0 (threadMap_' (snd (start_create 0 (g, p0)))) = None"
    if "threadMap_' p0 = []" and "initThreadSize_' p0 = ?n" for p0 :: "'t ThreadPool"
    using start_create_misses_0[of "(g, p0)" 0] u1 u2 that by (simp add: threadMap_at_def)
  show "start_of v (g, p) = (Inl (Null_thread 0) :: 'x fault + cint \<times> 't ThreadPool \<times> cint list)"
  proof (cases v)
    case V1
    let ?p0 = "p\<lparr>isPoolRunning_' := True\<rparr>"
    obtain g1 p1 where c: "start_create 0 (g, ?p0) = (g1, p1)" by (cases "start_create 0 (g, ?p0)")
    from miss[of ?p0] assms(1) c have a: "threadMap_at 0 (threadMap_' p1) = None" by simp
    from start_create_frame[OF c] assms(2) have "0 <s initThreadSize_' p1" by simp
    with a have "start_launch_v1 0 (p1, [])
                   = (Inl (Null_thread 0) :: 'x fault + 't ThreadPool \<times> cint list)"
      by (subst start_launch_v1.simps) simp
    with c show ?thesis by (simp add: V1 start_of_def start_v1_def)
  next
    case V2
    let ?p0 = "p\<lparr>isPoolRunning_' := True, curThreadNum_' := initThreadSize_' p\<rparr>"
    obtain g1 p1 where c: "start_create 0 (g, ?p0) = (g1, p1)" by (cases "start_create 0 (g, ?p0)")
    from miss[of ?p0] assms(1) c have a: "threadMap_at 0 (threadMap_' p1) = None" by simp
    from start_create_frame[OF c] assms(2) have "0 <s initThreadSize_' p1" by simp
    with a have "start_launch_v2 0 (p1, [])
                   = (Inl (Null_thread 0) :: 'x fault + 't ThreadPool \<times> cint list)"
      by (subst start_launch_v2.simps) simp
    with c show ?thesis by (simp add: V2 start_of_def start_v2_def)
  qed
qed

theorem start_finds_its_threads_only_from_counter_0_witness:
  "threadMap_' (ThreadPool_v1 2 1024 4 MODE_FIXED False :: nat ThreadPool) = []
   \<and> 0 <s initThreadSize_' (ThreadPool_v1 2 1024 4 MODE_FIXED False :: nat ThreadPool)
   \<and> (\<exists>p'. start_of V1 (0, ThreadPool_v1 2 1024 4 MODE_FIXED False :: nat ThreadPool)
              = (Inr (2, p', [0, 1]) :: string fault + cint \<times> nat ThreadPool \<times> cint list)
           \<and> registered_below 2 (threadMap_' p'))
   \<and> start_of V1 (2, ThreadPool_v1 2 1024 4 MODE_FIXED False :: nat ThreadPool)
       = (Inl (Null_thread 0) :: string fault + cint \<times> nat ThreadPool \<times> cint list)
   \<and> start_of V2 (2, ThreadPool_v2 MODE_FIXED 2 1024 4 :: nat ThreadPool)
       = (Inl (Null_thread 0) :: string fault + cint \<times> nat ThreadPool \<times> cint list)"
proof -
  let ?A = "ThreadPool_v1 2 1024 4 MODE_FIXED False :: nat ThreadPool"
  let ?B = "ThreadPool_v2 MODE_FIXED 2 1024 4 :: nat ThreadPool"
  have a1: "threadMap_' ?A = []" and a2: "0 <s initThreadSize_' ?A"
    and i: "initThreadSize_' ?A = 2"
    by (simp_all add: ThreadPool_v1_def word_sless_alt)
  have b1: "threadMap_' ?B = []" and b2: "0 <s initThreadSize_' ?B"
    by (simp_all add: ThreadPool_v2_def word_sless_alt)
  have g0: "(0::cint) \<le>s 0" and g2: "(0::cint) \<le>s 2" by (simp_all add: word_sle_eq)
  have u: "map of_nat [0..<2] = [0, 1 :: cint]"
    by (simp add: upt_conv_Cons)
  from start_finds_its_threads_only_from_counter_0 [OF a1 a2 g0, where v = V1 and ?'x = string]
  have c1: "\<exists>p'. start_of V1 (0, ?A)
              = (Inr (2, p', [0, 1]) :: string fault + cint \<times> nat ThreadPool \<times> cint list)
           \<and> registered_below 2 (threadMap_' p')"
    by (simp add: i u)
  from start_finds_its_threads_only_from_counter_0 [OF a1 a2 g2, where v = V1 and ?'x = string]
  have c2: "start_of V1 (2, ?A)
       = (Inl (Null_thread 0) :: string fault + cint \<times> nat ThreadPool \<times> cint list)"
    by simp
  from start_finds_its_threads_only_from_counter_0 [OF b1 b2 g2, where v = V2 and ?'x = string]
  have c3: "start_of V2 (2, ?B)
       = (Inl (Null_thread 0) :: string fault + cint \<times> nat ThreadPool \<times> cint list)"
    by simp
  from a1 a2 c1 c2 c3 show ?thesis by (intro conjI)
qed

end
